theory Spec2Isabelle
  imports Main "HOL-Library.Sublist" "HOL-Library.Multiset"
    "HOL-Library.List_Lexorder" "HOL-Library.Char_ord"
begin

section \<open>Python strings\<close>

text \<open>
  A Python \<open>str\<close> is modelled as a \<open>string\<close>: each \<open>char\<close> stands for the code
  point of the same number, so the model covers the texts whose code points lie below 256
  (ASCII and the Latin-1 supplement). On that range the functions below are CPython's
  \<open>str.lower\<close>, \<open>str.isspace\<close>, \<open>str.isalpha\<close>, \<open>str.strip\<close>, \<open>str.split\<close>
  and \<open>str.join\<close>.
\<close>

definition code_point :: "char \<Rightarrow> nat" where
  "code_point c = of_char c"

definition in_range :: "char \<Rightarrow> char \<Rightarrow> char \<Rightarrow> bool" where
  "in_range lo hi c \<longleftrightarrow> code_point lo \<le> code_point c \<and> code_point c \<le> code_point hi"

definition py_isspace :: "char \<Rightarrow> bool" where
  "py_isspace c \<longleftrightarrow>
     (let n = code_point c
      in (9 \<le> n \<and> n \<le> 13) \<or> (28 \<le> n \<and> n \<le> 32) \<or> n = 133 \<or> n = 160)"

definition py_lower_char :: "char \<Rightarrow> char" where
  "py_lower_char c =
     (let n = code_point c
      in if (65 \<le> n \<and> n \<le> 90) \<or> (192 \<le> n \<and> n \<le> 222 \<and> n \<noteq> 215)
         then char_of (n + 32) else c)"

definition py_lower :: "string \<Rightarrow> string" where
  "py_lower s = map py_lower_char s"

definition py_isalpha_char :: "char \<Rightarrow> bool" where
  "py_isalpha_char c \<longleftrightarrow>
     (let n = code_point c
      in (65 \<le> n \<and> n \<le> 90) \<or> (97 \<le> n \<and> n \<le> 122) \<or> n = 170 \<or> n = 181 \<or> n = 186
         \<or> (192 \<le> n \<and> n \<le> 214) \<or> (216 \<le> n \<and> n \<le> 246) \<or> (248 \<le> n \<and> n \<le> 255))"

definition py_isalpha :: "string \<Rightarrow> bool" where
  "py_isalpha s \<longleftrightarrow> s \<noteq> [] \<and> list_all py_isalpha_char s"

definition py_strip :: "string \<Rightarrow> string" where
  "py_strip s = rev (dropWhile py_isspace (rev (dropWhile py_isspace s)))"

fun py_split :: "char \<Rightarrow> string \<Rightarrow> string list" where
  "py_split sep [] = [[]]"
| "py_split sep (c # cs) =
     (if c = sep then [] # py_split sep cs
      else (case py_split sep cs of [] \<Rightarrow> [[c]] | p # ps \<Rightarrow> (c # p) # ps))"

fun py_join :: "string \<Rightarrow> string list \<Rightarrow> string" where
  "py_join sep [] = []"
| "py_join sep [x] = x"
| "py_join sep (x # y # ys) = x @ sep @ py_join sep (y # ys)"

text \<open>\<open>kw in text\<close> on two strings is substring containment, \<^const>\<open>sublist\<close>.\<close>

definition substr :: "string \<Rightarrow> nat \<Rightarrow> nat \<Rightarrow> string" where
  "substr s i j = take (j - i) (drop i s)"

section \<open>Regular expressions of the \<open>re\<close> module\<close>

text \<open>
  The patterns of the source use character classes, concatenation, ordered alternation,
  greedy repetition and the anchors \<open>^\<close> and \<open>$\<close> (no flags). \<open>ends r s i\<close> lists the
  positions at which a match of \<open>r\<close> that starts at position \<open>i\<close> of \<open>s\<close> can end, in the
  order in which the backtracking matcher tries them: the first element is the end of the
  match that \<open>re\<close> reports. A repetition gives up an iteration that consumes nothing;
  no repetition of the source has such a body.
\<close>

datatype regex =
    Cls "char \<Rightarrow> bool"
  | Eps
  | Bol
  | Eol
  | Seq regex regex
  | Alt regex regex
  | Star regex

function ends :: "regex \<Rightarrow> string \<Rightarrow> nat \<Rightarrow> nat list" where
  "ends (Cls P) s i = (if i < length s \<and> P (s ! i) then [Suc i] else [])"
| "ends Eps s i = [i]"
| "ends Bol s i = (if i = 0 then [i] else [])"
| "ends Eol s i =
     (if i = length s \<or> (Suc i = length s \<and> s ! i = CHR 0x0A) then [i] else [])"
| "ends (Seq a b) s i = concat (map (\<lambda>j. ends b s j) (ends a s i))"
| "ends (Alt a b) s i = ends a s i @ ends b s i"
| "ends (Star a) s i =
     concat (map (\<lambda>j. if i < j \<and> j \<le> length s then ends (Star a) s j else []) (ends a s i))
     @ [i]"
  by pat_completeness auto
termination
  by (relation "measures [\<lambda>(r, s, i). size r, \<lambda>(r, s, i). length s - i]") auto

fun search_in :: "regex \<Rightarrow> string \<Rightarrow> nat list \<Rightarrow> (nat \<times> nat) option" where
  "search_in r s [] = None"
| "search_in r s (i # is) =
     (case ends r s i of [] \<Rightarrow> search_in r s is | j # _ \<Rightarrow> Some (i, j))"

definition re_search :: "regex \<Rightarrow> string \<Rightarrow> (nat \<times> nat) option" where
  \<comment> \<open>\<open>re.search\<close>: the span of the first match, trying the start positions from the left\<close>
  "re_search r s = search_in r s [0..<Suc (length s)]"

definition re_found :: "regex \<Rightarrow> string \<Rightarrow> bool" where
  \<comment> \<open>\<open>if re.search(r, s):\<close>\<close>
  "re_found r s \<longleftrightarrow> re_search r s \<noteq> None"

definition Lit :: "char \<Rightarrow> regex" where
  "Lit c = Cls (\<lambda>x. x = c)"

definition Str :: "string \<Rightarrow> regex" where
  "Str w = foldr (\<lambda>c r. Seq (Lit c) r) w Eps"

definition seqs :: "regex list \<Rightarrow> regex" where
  "seqs rs = foldr Seq rs Eps"

definition alts :: "regex list \<Rightarrow> regex" where
  "alts rs = foldr Alt rs (Cls (\<lambda>x. False))"

definition Plus :: "regex \<Rightarrow> regex" where
  "Plus r = Seq r (Star r)"

definition Opt :: "regex \<Rightarrow> regex" where
  "Opt r = Alt r Eps"

definition cls_upper :: regex where
  \<comment> \<open>\<open>[A-Z]\<close>\<close>
  "cls_upper = Cls (in_range CHR ''A'' CHR ''Z'')"

definition cls_lower :: regex where
  \<comment> \<open>\<open>[a-z]\<close>\<close>
  "cls_lower = Cls (in_range CHR ''a'' CHR ''z'')"

definition cls_space :: regex where
  \<comment> \<open>\<open>\s\<close>\<close>
  "cls_space = Cls py_isspace"

section \<open>affiliations.py\<close>

definition ACADEMIC_KEYWORDS :: "string list" where
  "ACADEMIC_KEYWORDS =
    [''university'', ''college'', ''institute'', ''school'', ''academy'', ''hospital'',
     ''medical center'', ''clinic'', ''foundation'', ''laboratory'', ''lab'', ''center for'',
     ''department of'', ''faculty'', ''division of'', ''national'', ''federal'', ''ministry'',
     ''government'', ''association'', ''society'', ''organization'']"

definition COMPANY_KEYWORDS :: "string list" where
  "COMPANY_KEYWORDS =
    [''pharma'', ''biotech'', ''therapeutics'', ''biosciences'', ''laboratories'', ''inc'',
     ''corp'', ''llc'', ''ltd'', ''co'', ''company'', ''gmbh'', ''ag'', ''sa'', ''bv'', ''plc'',
     ''biopharmaceutical'', ''pharmaceutical'', ''drug'', ''medicine'', ''health'']"

definition LEGAL_SUFFIXES :: "string list" where
  "LEGAL_SUFFIXES =
    [''Inc'', ''Corp'', ''LLC'', ''Ltd'', ''GmbH'', ''AG'', ''SA'', ''BV'', ''PLC'']"

definition legal_suffix :: regex where
  \<comment> \<open>\<open>(?:Inc|Corp|LLC|Ltd|GmbH|AG|SA|BV|PLC)\<close>\<close>
  "legal_suffix = alts (map Str LEGAL_SUFFIXES)"

definition CORPORATE_ENDINGS :: "string list" where
  "CORPORATE_ENDINGS = [''company'', ''corporation'', ''inc'', ''corp'', ''llc'', ''ltd'']"

definition company_like_name_pattern :: regex where
  \<comment> \<open>\<open>^\s*[A-Z][a-z]+(?:\s+[A-Z][a-z]+)*\s*,?\s*(?:Inc|Corp|LLC|Ltd|GmbH|AG|SA|BV|PLC)\<close>\<close>
  "company_like_name_pattern =
     seqs [Bol, Star cls_space, cls_upper, Plus cls_lower,
           Star (seqs [Plus cls_space, cls_upper, Plus cls_lower]),
           Star cls_space, Opt (Lit CHR '',''), Star cls_space, legal_suffix]"

definition corporate_ending_pattern :: regex where
  \<comment> \<open>\<open>(?:company|corporation|inc|corp|llc|ltd)\s*$\<close>\<close>
  "corporate_ending_pattern = seqs [alts (map Str CORPORATE_ENDINGS), Star cls_space, Eol]"

definition legal_suffix_token_pattern :: regex where
  \<comment> \<open>\<open>(?:Inc|Corp|LLC|Ltd|GmbH|AG|SA|BV|PLC)\.?(?:\s|$)\<close>\<close>
  "legal_suffix_token_pattern = seqs [legal_suffix, Opt (Lit CHR ''.''), Alt cls_space Eol]"

definition company_name_pattern :: regex where
  \<comment> \<open>\<open>([A-Z][a-zA-Z0-9\s]+(?:Inc|Corp|LLC|Ltd|GmbH|AG|SA|BV|PLC)\.?)\<close>\<close>
  "company_name_pattern =
     seqs [cls_upper,
           Plus (Cls (\<lambda>c. in_range CHR ''a'' CHR ''z'' c \<or> in_range CHR ''A'' CHR ''Z'' c
                         \<or> in_range CHR ''0'' CHR ''9'' c \<or> py_isspace c)),
           legal_suffix, Opt (Lit CHR ''.'')]"

definition email_pattern :: regex where
  \<comment> \<open>\<open>[a-zA-Z0-9._%+-]+@[a-zA-Z0-9.-]+\.[a-zA-Z]{2,}\<close>\<close>
  "email_pattern =
     (let alnum = (\<lambda>c. in_range CHR ''a'' CHR ''z'' c \<or> in_range CHR ''A'' CHR ''Z'' c
                         \<or> in_range CHR ''0'' CHR ''9'' c);
          letter = Cls (\<lambda>c. in_range CHR ''a'' CHR ''z'' c \<or> in_range CHR ''A'' CHR ''Z'' c)
      in seqs [Plus (Cls (\<lambda>c. alnum c \<or> c \<in> set ''._%+-'')), Lit CHR ''@'',
               Plus (Cls (\<lambda>c. alnum c \<or> c \<in> set ''.-'')), Lit CHR ''.'',
               letter, letter, Star letter])"

text \<open>
  The two nested \<open>for\<close> loops of \<open>is_company_affiliation\<close>. A loop returns \<open>Some b\<close> when
  its body executes \<open>return b\<close> and \<open>None\<close> when it runs to its end.
\<close>

fun academic_loop :: "string list \<Rightarrow> string \<Rightarrow> string \<Rightarrow> bool option" where
  "academic_loop [] affiliation affiliation_lower = None"
| "academic_loop (academic_keyword # rest) affiliation affiliation_lower =
     (if sublist academic_keyword affiliation_lower then
        (if re_found company_like_name_pattern affiliation then Some True
         else if re_found corporate_ending_pattern affiliation_lower then Some True
         else Some False)
      else academic_loop rest affiliation affiliation_lower)"

fun company_loop :: "string list \<Rightarrow> string \<Rightarrow> string \<Rightarrow> bool option" where
  "company_loop [] affiliation affiliation_lower = None"
| "company_loop (keyword # rest) affiliation affiliation_lower =
     (if sublist keyword affiliation_lower then
        (case academic_loop ACADEMIC_KEYWORDS affiliation affiliation_lower of
           Some b \<Rightarrow> Some b
         | None \<Rightarrow> Some True)
      else company_loop rest affiliation affiliation_lower)"

text \<open>The argument is \<open>None\<close> for Python's \<open>None\<close>, which \<open>not affiliation\<close> accepts too.\<close>

definition is_company_affiliation :: "string option \<Rightarrow> bool" where
  "is_company_affiliation a =
     (case a of
        None \<Rightarrow> False
      | Some affiliation \<Rightarrow>
          if affiliation = [] then False
          else (case company_loop COMPANY_KEYWORDS affiliation (py_lower affiliation) of
                  Some b \<Rightarrow> b
                | None \<Rightarrow> re_found legal_suffix_token_pattern affiliation))"

definition extract_company_name :: "string \<Rightarrow> string option" where
  "extract_company_name affiliation =
     (if affiliation = [] then None
      else (case re_search company_name_pattern affiliation of
              Some (i, j) \<Rightarrow> Some (py_strip (substr affiliation i j))
            | None \<Rightarrow>
                if is_company_affiliation (Some affiliation) then
                  (case py_split CHR '','' affiliation of
                     [] \<Rightarrow> None
                   | part # _ \<Rightarrow> Some (py_strip part))
                else None))"

definition extract_email :: "string \<Rightarrow> string option" where
  "extract_email txt =
     (if txt = [] then None
      else (case re_search email_pattern txt of
              Some (i, j) \<Rightarrow> Some (substr txt i j)
            | None \<Rightarrow> None))"

definition get_company_affiliations :: "string list \<Rightarrow> string set" where
  "get_company_affiliations affiliations =
     fold (\<lambda>affiliation companies.
             if is_company_affiliation (Some affiliation) then
               (case extract_company_name affiliation of
                  Some company_name \<Rightarrow>
                    if company_name \<noteq> [] then insert company_name companies else companies
                | None \<Rightarrow> companies)
             else companies)
          affiliations {}"

section \<open>Element trees of \<open>xml.etree.ElementTree\<close>\<close>

text \<open>
  An element has a tag, attributes, an optional text and child elements. \<open>iter_elems\<close> is
  \<open>Element.iter()\<close>: the element and all its descendants in document order. The paths of
  the source are \<open>.//T\<close> (\<open>findall_descendant\<close>: the proper descendants tagged \<open>T\<close>, in
  document order), \<open>T\<close> (\<open>findall_child\<close>), \<open>T/U\<close> and \<open>.//T/U\<close>; a step \<open>/U\<close> replaces
  each element selected so far, in turn, by its children tagged \<open>U\<close>. \<open>find\<close> is the
  first element of \<open>findall\<close>.
\<close>

datatype element =
  Element (el_tag: string) (el_attrib: "(string \<times> string) list") (el_text: "string option")
          (el_children: "element list")

fun iter_elems :: "element \<Rightarrow> element list" where
  "iter_elems (Element t a x cs) = Element t a x cs # concat (map iter_elems cs)"

definition findall_descendant :: "string \<Rightarrow> element \<Rightarrow> element list" where
  "findall_descendant t e =
     filter (\<lambda>d. el_tag d = t) (concat (map iter_elems (el_children e)))"

definition findall_child :: "string \<Rightarrow> element \<Rightarrow> element list" where
  "findall_child t e = filter (\<lambda>c. el_tag c = t) (el_children e)"

definition child_step :: "string \<Rightarrow> element list \<Rightarrow> element list" where
  "child_step t es = concat (map (findall_child t) es)"

definition find_first :: "element list \<Rightarrow> element option" where
  "find_first es = (case es of [] \<Rightarrow> None | e # _ \<Rightarrow> Some e)"

definition elem_get :: "element \<Rightarrow> string \<Rightarrow> string option" where
  "elem_get e k = map_of (el_attrib e) k"

definition nonempty_text :: "element option \<Rightarrow> string option" where
  \<comment> \<open>the text when \<open>e is not None and e.text\<close> holds\<close>
  "nonempty_text e =
     (case e of
        None \<Rightarrow> None
      | Some x \<Rightarrow> (case el_text x of None \<Rightarrow> None | Some t \<Rightarrow> if t = [] then None else Some t))"

definition text_or :: "element option \<Rightarrow> string \<Rightarrow> string" where
  \<comment> \<open>\<open>e.text if e is not None and e.text else d\<close>\<close>
  "text_or e d = (case nonempty_text e of None \<Rightarrow> d | Some t \<Rightarrow> t)"

section \<open>parser.py\<close>

datatype py_error = ValueError | AttributeError

definition extract_title :: "element \<Rightarrow> string" where
  "extract_title article =
     text_or (find_first (findall_descendant ''ArticleTitle'' article)) ''Unknown Title''"

definition MONTH_ABBR :: "string list" where
  "MONTH_ABBR = [''jan'', ''feb'', ''mar'', ''apr'', ''may'', ''jun'',
                 ''jul'', ''aug'', ''sep'', ''oct'', ''nov'', ''dec'']"

fun index_of :: "'a \<Rightarrow> 'a list \<Rightarrow> nat option" where
  "index_of x [] = None"
| "index_of x (y # ys) = (if x = y then Some 0 else map_option Suc (index_of x ys))"

definition strptime_b :: "string \<Rightarrow> py_error + nat" where
  \<comment> \<open>\<open>datetime.strptime(data_string, "%b").month\<close>: the whole string is an abbreviated
      month name of the C locale, in any letter case, or \<open>ValueError\<close> is raised\<close>
  "strptime_b data_string =
     (case index_of (py_lower data_string) MONTH_ABBR of
        None \<Rightarrow> Inl ValueError
      | Some k \<Rightarrow> Inr (Suc k))"

fun py_str :: "nat \<Rightarrow> string" where
  "py_str n =
     (if n < 10 then [char_of (48 + n)] else py_str (n div 10) @ [char_of (48 + n mod 10)])"

definition zfill :: "nat \<Rightarrow> string \<Rightarrow> string" where
  "zfill w s = replicate (w - length s) CHR ''0'' @ s"

definition month_names :: "string \<Rightarrow> py_error + string" where
  \<comment> \<open>the \<open>try\<close> block under "Handle month names", with its \<open>except\<close> clause\<close>
  "month_names month_str =
     (if py_isalpha month_str then
        (case strptime_b (take 3 month_str) of
           Inr m \<Rightarrow> Inr (zfill 2 (py_str m))
         | Inl e \<Rightarrow> if e = ValueError \<or> e = AttributeError then Inr ''XX'' else Inl e)
      else Inr month_str)"

definition extract_publication_date :: "element \<Rightarrow> py_error + string" where
  "extract_publication_date article =
     (case find_first (findall_descendant ''PubDate'' article) of
        None \<Rightarrow> Inr ''Unknown Date''
      | Some pub_date \<Rightarrow>
          (let year_str = text_or (find_first (findall_child ''Year'' pub_date)) ''XXXX'';
               month_text = text_or (find_first (findall_child ''Month'' pub_date)) ''XX'';
               day_str = text_or (find_first (findall_child ''Day'' pub_date)) ''XX''
           in case month_names month_text of
                Inl e \<Rightarrow> Inl e
              | Inr month_str \<Rightarrow>
                  Inr (if year_str \<noteq> ''XXXX'' then
                         (if month_str \<noteq> ''XX'' \<and> day_str \<noteq> ''XX''
                          then year_str @ ''-'' @ month_str @ ''-'' @ day_str
                          else if month_str \<noteq> ''XX'' then year_str @ ''-'' @ month_str
                          else year_str)
                       else ''Unknown Date'')))"

definition author_entry :: "element \<Rightarrow> (string \<times> string \<times> string option) option" where
  \<comment> \<open>one iteration of the loop over the authors; \<open>None\<close> is \<open>continue\<close>\<close>
  "author_entry author =
     (let last_name = find_first (findall_child ''LastName'' author);
          fore_name = find_first (findall_child ''ForeName'' author);
          initials = find_first (findall_child ''Initials'' author)
      in case nonempty_text last_name of
           None \<Rightarrow> None
         | Some last_text \<Rightarrow>
             (let name = (case nonempty_text fore_name of
                            Some fore_text \<Rightarrow> fore_text @ '' '' @ last_text
                          | None \<Rightarrow>
                              (case nonempty_text initials of
                                 Some initials_text \<Rightarrow> initials_text @ '' '' @ last_text
                               | None \<Rightarrow> last_text));
                  affiliation_elem =
                    find_first (child_step ''Affiliation'' (findall_child ''AffiliationInfo'' author));
                  affiliation = text_or affiliation_elem [];
                  email = (if affiliation \<noteq> [] then extract_email affiliation else None)
              in Some (name, affiliation, email)))"

definition extract_author_affiliations ::
    "element \<Rightarrow> (string \<times> string \<times> string option) list" where
  "extract_author_affiliations article =
     (case find_first (findall_descendant ''AuthorList'' article) of
        None \<Rightarrow> []
      | Some author_list \<Rightarrow> List.map_filter author_entry (findall_child ''Author'' author_list))"

fun first_email :: "element list \<Rightarrow> string option" where
  \<comment> \<open>\<open>for affiliation in ...: if affiliation.text: email = ...; if email: return email\<close>\<close>
  "first_email [] = None"
| "first_email (affiliation # rest) =
     (case el_text affiliation of
        None \<Rightarrow> first_email rest
      | Some t \<Rightarrow>
          if t = [] then first_email rest
          else (case extract_email t of
                  None \<Rightarrow> first_email rest
                | Some email \<Rightarrow> if email \<noteq> [] then Some email else first_email rest))"

fun corresponding_loop :: "element list \<Rightarrow> string option" where
  "corresponding_loop [] = None"
| "corresponding_loop (author # rest) =
     (if elem_get author ''ValidYN'' = Some ''Y''
         \<and> elem_get author ''CorrespondingAuthor'' = Some ''Y'' then
        (case first_email (child_step ''Affiliation'' (findall_child ''AffiliationInfo'' author)) of
           Some email \<Rightarrow> Some email
         | None \<Rightarrow> corresponding_loop rest)
      else corresponding_loop rest)"

definition extract_corresponding_author_email :: "element \<Rightarrow> string option" where
  "extract_corresponding_author_email article =
     (case corresponding_loop (findall_descendant ''Author'' article) of
        Some email \<Rightarrow> Some email
      | None \<Rightarrow>
          first_email (child_step ''Affiliation'' (findall_descendant ''AffiliationInfo'' article)))"

record article_record =
  PubmedID :: string
  Title :: string
  PublicationDate :: string
  NonAcademicAuthors :: string
  CompanyAffiliations :: string
  CorrespondingAuthorEmail :: string

definition classify_step ::
    "string \<times> string \<times> string option \<Rightarrow> string list \<times> string set \<Rightarrow> string list \<times> string set" where
  \<comment> \<open>the body of the loop over \<open>author_affiliations\<close>, on the pair
      \<open>(non_academic_authors, company_affiliations)\<close>\<close>
  "classify_step entry acc =
     (case entry of (name, affiliation, _) \<Rightarrow>
        (case acc of (non_academic_authors, company_affiliations) \<Rightarrow>
           if affiliation \<noteq> [] \<and> is_company_affiliation (Some affiliation) then
             (non_academic_authors @ [name],
              (case extract_company_name affiliation of
                 Some company_name \<Rightarrow>
                   if company_name \<noteq> [] then insert company_name company_affiliations
                   else company_affiliations
               | None \<Rightarrow> company_affiliations))
           else (non_academic_authors, company_affiliations)))"

text \<open>
  The order in which Python iterates over a set is not specified; \<open>set_order\<close> stands for
  it: the list of the elements of the set in the order of iteration.
\<close>

definition parse_article ::
    "(string set \<Rightarrow> string list) \<Rightarrow> string \<Rightarrow> element \<Rightarrow> py_error + article_record" where
  "parse_article set_order pmid article =
     (let title = extract_title article
      in case extract_publication_date article of
           Inl e \<Rightarrow> Inl e
         | Inr publication_date \<Rightarrow>
             (let author_affiliations = extract_author_affiliations article;
                  (non_academic_authors, company_affiliations) =
                     fold classify_step author_affiliations ([], {});
                  corresponding_author_email =
                     (case extract_corresponding_author_email article of
                        None \<Rightarrow> ''Email Not Found''
                      | Some email \<Rightarrow> if email = [] then ''Email Not Found'' else email)
              in Inr \<lparr> PubmedID = (if pmid \<noteq> [] then pmid else ''PubMed ID Not Found''),
                       Title = title,
                       PublicationDate = publication_date,
                       NonAcademicAuthors =
                         (if non_academic_authors \<noteq> [] then py_join ''; '' non_academic_authors
                          else ''No Non-Academic Authors''),
                       CompanyAffiliations =
                         (if company_affiliations \<noteq> {}
                          then py_join ''; '' (set_order company_affiliations)
                          else ''No Company Affiliations''),
                       CorrespondingAuthorEmail = corresponding_author_email \<rparr>))"

section \<open>The date format of the specification\<close>

text \<open>
  The month that \<open>month_names\<close> computes, with \<open>None\<close> for the month that is
  unknown: an alphabetic month is converted to a two-digit number through its first three
  letters, and is unknown when the conversion fails; any other month text is kept.
\<close>

definition numeric_month :: "string \<Rightarrow> string option" where
  "numeric_month m =
     (if py_isalpha m then
        (case index_of (py_lower (take 3 m)) MONTH_ABBR of
           Some k \<Rightarrow> Some (zfill 2 (py_str (Suc k)))
         | None \<Rightarrow> None)
      else Some m)"

text \<open>
  The format \<open>YYYY-MM-DD\<close> that the specification and the docstring of
  \<open>extract_publication_date\<close> name for a date with its year, month and day: four
  digits, two digits and two digits, joined by hyphens.
\<close>

definition is_digit :: "char \<Rightarrow> bool" where
  "is_digit c \<longleftrightarrow> in_range CHR ''0'' CHR ''9'' c"

definition digits :: "nat \<Rightarrow> string \<Rightarrow> bool" where
  "digits n s \<longleftrightarrow> length s = n \<and> list_all is_digit s"

definition full_date :: "string \<Rightarrow> bool" where
  "full_date d \<longleftrightarrow>
     digits 4 (take 4 d) \<and> take 1 (drop 4 d) = ''-''
     \<and> digits 2 (take 2 (drop 5 d)) \<and> take 1 (drop 7 d) = ''-''
     \<and> digits 2 (drop 8 d)"

section \<open>Trimming, as specified\<close>

text \<open>
  A text \<open>r\<close> is the text \<open>s\<close> trimmed of surrounding whitespace when \<open>s\<close> is
  \<open>r\<close> between two runs of whitespace and \<open>r\<close> neither starts nor ends with
  whitespace.
\<close>

definition no_outer_space :: "string \<Rightarrow> bool" where
  "no_outer_space r \<longleftrightarrow>
     (case r of [] \<Rightarrow> True | c # _ \<Rightarrow> \<not> py_isspace c \<and> \<not> py_isspace (last r))"

definition trimmed_of :: "string \<Rightarrow> string \<Rightarrow> bool" where
  "trimmed_of s r \<longleftrightarrow>
     no_outer_space r
     \<and> (\<exists>a\<in>set (prefixes s). \<exists>b\<in>set (suffixes s).
           s = a @ r @ b \<and> list_all py_isspace a \<and> list_all py_isspace b)"

section \<open>The corporate ending, as specified\<close>

text \<open>
  A text ends with a corporate-suffix word, allowing trailing whitespace, when one of the
  words is a suffix of the text with its trailing whitespace removed.
\<close>

definition py_rstrip :: "string \<Rightarrow> string" where
  "py_rstrip s = rev (dropWhile py_isspace (rev s))"

definition ends_with_corporate_word :: "string \<Rightarrow> bool" where
  "ends_with_corporate_word t \<longleftrightarrow> (\<exists>w\<in>set CORPORATE_ENDINGS. suffix w (py_rstrip t))"

section \<open>The scan for the corresponding author's email, as specified\<close>

text \<open>
  \<open>document_order_affiliations\<close> lists, in document order, the elements that the path
  \<open>.//AffiliationInfo/Affiliation\<close> selects: the elements tagged \<open>Affiliation\<close> whose parent
  is a proper descendant of the article tagged \<open>AffiliationInfo\<close>. \<open>is_corresponding\<close> is
  the test of the source for an author flagged valid and corresponding,
  \<open>affiliation_email\<close> the email extracted from the text of one affiliation element, and
  \<open>no_nested_info\<close> says that no \<open>AffiliationInfo\<close> element lies inside another.
\<close>

fun affiliations_under :: "bool \<Rightarrow> element \<Rightarrow> element list" where
  "affiliations_under in_info (Element t a x cs) =
     (if in_info \<and> t = ''Affiliation'' then [Element t a x cs] else [])
     @ concat (map (affiliations_under (t = ''AffiliationInfo'')) cs)"

definition document_order_affiliations :: "element \<Rightarrow> element list" where
  "document_order_affiliations article =
     concat (map (affiliations_under False) (el_children article))"

definition is_corresponding :: "element \<Rightarrow> bool" where
  "is_corresponding author \<longleftrightarrow>
     elem_get author ''ValidYN'' = Some ''Y''
     \<and> elem_get author ''CorrespondingAuthor'' = Some ''Y''"

definition affiliation_email :: "element \<Rightarrow> string option" where
  "affiliation_email affiliation =
     (case el_text affiliation of
        None \<Rightarrow> None
      | Some t \<Rightarrow> if t = [] then None else extract_email t)"

definition no_nested_info :: "element \<Rightarrow> bool" where
  "no_nested_info article \<longleftrightarrow>
     (\<forall>d\<in>set (iter_elems article).
        el_tag d = ''AffiliationInfo'' \<longrightarrow> findall_descendant ''AffiliationInfo'' d = [])"

section \<open>Example documents\<close>

definition leaf :: "string \<Rightarrow> string \<Rightarrow> element" where
  "leaf t x = Element t [] (Some x) []"

definition node :: "string \<Rightarrow> element list \<Rightarrow> element" where
  "node t cs = Element t [] None cs"

section \<open>The keyword loops of \<open>is_company_affiliation\<close>\<close>

lemma academic_loop_none:
  "(\<forall>k\<in>set aks. \<not> sublist k low) \<Longrightarrow> academic_loop aks aff low = None"
  by (induction aks) auto

lemma academic_loop_some:
  "(\<exists>k\<in>set aks. sublist k low) \<Longrightarrow>
   academic_loop aks aff low =
     Some (re_found company_like_name_pattern aff \<or> re_found corporate_ending_pattern low)"
  by (induction aks) fastforce+

lemma company_loop_none:
  "(\<forall>k\<in>set ks. \<not> sublist k low) \<Longrightarrow> company_loop ks aff low = None"
  by (induction ks) auto

lemma company_loop_some:
  "(\<exists>k\<in>set ks. sublist k low) \<Longrightarrow>
   company_loop ks aff low =
     Some (case academic_loop ACADEMIC_KEYWORDS aff low of Some b \<Rightarrow> b | None \<Rightarrow> True)"
  by (induction ks) (fastforce split: option.splits)+

lemma company_keywords_nonempty: "[] \<notin> set COMPANY_KEYWORDS"
  by (simp add: COMPANY_KEYWORDS_def)

lemma keyword_present_nonempty:
  assumes "k \<in> set COMPANY_KEYWORDS" "sublist k (py_lower s)"
  shows "s \<noteq> []"
  using assms company_keywords_nonempty by (auto simp: py_lower_def)

lemma lower_legal_suffixes_all:
  "list_all (\<lambda>w. py_lower w \<in> set COMPANY_KEYWORDS) LEGAL_SUFFIXES"
  by code_simp

lemma lower_legal_suffixes: "w \<in> set LEGAL_SUFFIXES \<Longrightarrow> py_lower w \<in> set COMPANY_KEYWORDS"
  using lower_legal_suffixes_all by (simp add: list_all_iff)

text \<open>
  Claim C10. Keyword detection is substring containment on the lower-cased text, not
  whole-word matching: a string whose lower-casing contains a company keyword anywhere
  (inside a word too) and contains no academic keyword anywhere is classified as a company.
\<close>

theorem substring_keyword_is_company:
  assumes "\<exists>k\<in>set COMPANY_KEYWORDS. sublist k (py_lower s)"
      and "\<forall>k\<in>set ACADEMIC_KEYWORDS. \<not> sublist k (py_lower s)"
  shows "is_company_affiliation (Some s)"
proof -
  from assms(1) have "s \<noteq> []" using keyword_present_nonempty by blast
  moreover have "company_loop COMPANY_KEYWORDS s (py_lower s) = Some True"
    using company_loop_some [OF assms(1)] academic_loop_none [OF assms(2)] by simp
  ultimately show ?thesis by (simp add: is_company_affiliation_def)
qed

text \<open>The keyword \<open>co\<close> inside the word \<open>Second\<close> makes the text a company.\<close>

theorem substring_keyword_is_company_witness:
  "(\<exists>k\<in>set COMPANY_KEYWORDS. sublist k (py_lower ''Second opinion''))
   \<and> \<not> (\<exists>k\<in>set ACADEMIC_KEYWORDS. sublist k (py_lower ''Second opinion''))
   \<and> is_company_affiliation (Some ''Second opinion'')"
proof -
  have c: "\<exists>k\<in>set COMPANY_KEYWORDS. sublist k (py_lower ''Second opinion'')"
    by code_simp
  have a: "\<forall>k\<in>set ACADEMIC_KEYWORDS. \<not> sublist k (py_lower ''Second opinion'')"
    by code_simp
  from substring_keyword_is_company [OF c a] c a show ?thesis by blast
qed

text \<open>
  The word \<open>collaboration\<close> contains the company keyword \<open>co\<close>, and the academic keyword
  \<open>lab\<close> as well, so it is outside the strings of claim C10 and is not a company.
\<close>

lemma collaboration_is_academic:
  "sublist ''co'' (py_lower ''collaboration'') \<and> sublist ''lab'' (py_lower ''collaboration'')
   \<and> \<not> is_company_affiliation (Some ''collaboration'')"
  by code_simp

text \<open>
  Claim C5. An affiliation string that contains one of the legal-entity suffixes
  Inc, Corp, LLC, Ltd, GmbH, AG, SA, BV, PLC and no academic keyword (keywords are looked
  for in the lower-cased text) is a company; the empty string and an absent string are not.
\<close>

theorem legal_suffix_is_company:
  "((\<exists>w\<in>set LEGAL_SUFFIXES. sublist w s)
      \<and> (\<forall>k\<in>set ACADEMIC_KEYWORDS. \<not> sublist k (py_lower s))
     \<longrightarrow> is_company_affiliation (Some s))
   \<and> \<not> is_company_affiliation (Some [])
   \<and> \<not> is_company_affiliation None"
proof (intro conjI impI)
  assume h: "(\<exists>w\<in>set LEGAL_SUFFIXES. sublist w s)
             \<and> (\<forall>k\<in>set ACADEMIC_KEYWORDS. \<not> sublist k (py_lower s))"
  then obtain w where w: "w \<in> set LEGAL_SUFFIXES" "sublist w s" by blast
  from w(2) have "sublist (py_lower w) (py_lower s)"
    unfolding py_lower_def by (rule map_mono_sublist)
  with lower_legal_suffixes [OF w(1)]
  have c: "\<exists>k\<in>set COMPANY_KEYWORDS. sublist k (py_lower s)" by blast
  from c have "s \<noteq> []" using keyword_present_nonempty by blast
  moreover have "company_loop COMPANY_KEYWORDS s (py_lower s) = Some True"
    using company_loop_some [OF c] academic_loop_none [of ACADEMIC_KEYWORDS "py_lower s" s] h
    by simp
  ultimately show "is_company_affiliation (Some s)" by (simp add: is_company_affiliation_def)
next
  show "\<not> is_company_affiliation (Some [])" by (simp add: is_company_affiliation_def)
next
  show "\<not> is_company_affiliation None" by (simp add: is_company_affiliation_def)
qed

theorem legal_suffix_is_company_witness:
  "(\<exists>w\<in>set LEGAL_SUFFIXES. sublist w ''Acme Corp'')
   \<and> \<not> (\<exists>k\<in>set ACADEMIC_KEYWORDS. sublist k (py_lower ''Acme Corp''))
   \<and> is_company_affiliation (Some ''Acme Corp'')"
proof -
  have c: "\<exists>w\<in>set LEGAL_SUFFIXES. sublist w ''Acme Corp''"
    by code_simp
  have a: "\<forall>k\<in>set ACADEMIC_KEYWORDS. \<not> sublist k (py_lower ''Acme Corp'')"
    by code_simp
  from legal_suffix_is_company [of "''Acme Corp''"] c a show ?thesis by blast
qed

section \<open>Company names\<close>

lemma py_split_head: "\<exists>rest. py_split sep s = takeWhile (\<lambda>c. c \<noteq> sep) s # rest"
  by (induction s) auto

lemma dropWhile_all: "list_all P xs \<Longrightarrow> dropWhile P (xs @ ys) = dropWhile P ys"
  by (induction xs) auto

lemma strip_of_parts:
  assumes "list_all py_isspace a" and "list_all py_isspace b" and "no_outer_space r"
  shows "py_strip (a @ r @ b) = r"
proof (cases r)
  case Nil
  from assms(1,2) have "\<forall>x\<in>set (a @ b). py_isspace x" by (auto simp: list_all_iff)
  then have "dropWhile py_isspace (a @ b) = []" by (simp only: dropWhile_eq_Nil_conv)
  with Nil show ?thesis by (simp only: py_strip_def append_Nil rev.simps dropWhile.simps)
next
  case (Cons c r')
  with assms(3) have c: "\<not> py_isspace c" and l: "\<not> py_isspace (last r)"
    by (simp_all add: no_outer_space_def)
  from Cons c have 1: "dropWhile py_isspace (a @ r @ b) = r @ b"
    using dropWhile_all [OF assms(1), of "r @ b"] by simp
  from l have "dropWhile py_isspace (rev r) = rev r"
    by (simp only: dropWhile_eq_self_iff hd_rev simp_thms)
  then have 2: "dropWhile py_isspace (rev (r @ b)) = rev r"
    using dropWhile_all [of py_isspace "rev b" "rev r"] assms(2) by simp
  from 1 2 show ?thesis by (simp add: py_strip_def)
qed

lemma strip_parts:
  "\<exists>a b. s = a @ py_strip s @ b \<and> list_all py_isspace a \<and> list_all py_isspace b"
proof -
  let ?t = "dropWhile py_isspace s"
  let ?u = "dropWhile py_isspace (rev ?t)"
  have "s = takeWhile py_isspace s @ ?t" by simp
  moreover have "rev ?t = takeWhile py_isspace (rev ?t) @ ?u" by simp
  then have "?t = rev ?u @ rev (takeWhile py_isspace (rev ?t))"
    by (metis rev_append rev_rev_ident)
  ultimately have "s = takeWhile py_isspace s @ py_strip s @ rev (takeWhile py_isspace (rev ?t))"
    by (simp add: py_strip_def)
  moreover have "list_all py_isspace (takeWhile py_isspace s)"
    by (simp add: list_all_iff) (meson set_takeWhileD)
  moreover have "list_all py_isspace (rev (takeWhile py_isspace (rev ?t)))"
    by (simp add: list_all_iff) (meson set_takeWhileD)
  ultimately show ?thesis by blast
qed

lemma strip_no_outer_space: "no_outer_space (py_strip s)"
proof (cases "py_strip s")
  case Nil
  then show ?thesis by (simp add: no_outer_space_def)
next
  case (Cons c r')
  let ?t = "dropWhile py_isspace s"
  let ?u = "dropWhile py_isspace (rev ?t)"
  from Cons have u: "?u \<noteq> []" by (auto simp: py_strip_def)
  then have "\<not> py_isspace (hd ?u)" by (rule hd_dropWhile)
  with u have l: "\<not> py_isspace (last (py_strip s))" by (simp add: py_strip_def last_rev)
  have t: "?t \<noteq> []"
  proof
    assume "?t = []"
    then have "?u = []" by (simp only: rev.simps dropWhile.simps)
    with u show False by simp
  qed
  then have h: "\<not> py_isspace (hd ?t)" by (rule hd_dropWhile)
  have "rev ?t = takeWhile py_isspace (rev ?t) @ ?u" by simp
  then have "?t = py_strip s @ rev (takeWhile py_isspace (rev ?t))"
    unfolding py_strip_def by (metis rev_append rev_rev_ident)
  with Cons have "hd ?t = c" by (metis append_Cons list.sel(1))
  with h l Cons show ?thesis by (simp add: no_outer_space_def)
qed

text \<open>\<open>str.strip\<close> trims: its result is the one text that is its argument trimmed.\<close>

lemma trimmed_of_iff: "trimmed_of s r \<longleftrightarrow> r = py_strip s"
proof
  assume "trimmed_of s r"
  then obtain a b where "s = a @ r @ b" "list_all py_isspace a" "list_all py_isspace b"
      "no_outer_space r"
    by (auto simp: trimmed_of_def)
  then show "r = py_strip s" by (simp add: strip_of_parts)
next
  assume r: "r = py_strip s"
  obtain a b where s: "s = a @ py_strip s @ b" and a: "list_all py_isspace a"
      and b: "list_all py_isspace b"
    using strip_parts by blast
  from s have "prefix a s" by (metis prefixI)
  moreover from s have "suffix b s" by (metis suffixI append_assoc)
  ultimately have "a \<in> set (prefixes s)" and "b \<in> set (suffixes s)" by simp_all
  with s a b have "\<exists>a\<in>set (prefixes s). \<exists>b\<in>set (suffixes s).
      s = a @ py_strip s @ b \<and> list_all py_isspace a \<and> list_all py_isspace b"
    by blast
  with r show "trimmed_of s r"
    using strip_no_outer_space [of s] by (simp add: trimmed_of_def)
qed

text \<open>
  Claim C6. \<open>extract_company_name\<close> first searches for a capitalised run that ends in a
  legal suffix with an optional period and returns the matched span, trimmed of surrounding
  whitespace; failing that, when \<open>is_company_affiliation\<close> holds it returns the segment
  before the first comma, trimmed (splitting always yields a segment); in all other cases
  it returns nothing.
\<close>

theorem extract_company_name_chain:
  "(extract_company_name s = Some r \<longleftrightarrow>
      (case re_search company_name_pattern s of
         Some (i, j) \<Rightarrow> trimmed_of (substr s i j) r
       | None \<Rightarrow>
           is_company_affiliation (Some s)
           \<and> trimmed_of (takeWhile (\<lambda>c. c \<noteq> CHR '','') s) r))
   \<and> (extract_company_name s = None \<longleftrightarrow>
        re_search company_name_pattern s = None \<and> \<not> is_company_affiliation (Some s))"
proof (cases "s = []")
  case True
  have "re_search company_name_pattern [] = None" by code_simp
  with True show ?thesis
    by (simp add: extract_company_name_def is_company_affiliation_def)
next
  case False
  obtain rest where "py_split CHR '','' s = takeWhile (\<lambda>c. c \<noteq> CHR '','') s # rest"
    using py_split_head by blast
  with False show ?thesis
    by (auto simp: extract_company_name_def trimmed_of_iff split: option.splits)
qed

theorem extract_company_name_chain_witness:
  "re_search company_name_pattern ''Research Division, Moderna Inc.'' = Some (19, 31)
   \<and> trimmed_of (substr ''Research Division, Moderna Inc.'' 19 31) ''Moderna Inc.''
   \<and> extract_company_name ''Research Division, Moderna Inc.'' = Some ''Moderna Inc.''
   \<and> re_search company_name_pattern ''  pfizer pharma  , NY'' = None
   \<and> is_company_affiliation (Some ''  pfizer pharma  , NY'')
   \<and> trimmed_of (takeWhile (\<lambda>c. c \<noteq> CHR '','') ''  pfizer pharma  , NY'') ''pfizer pharma''
   \<and> extract_company_name ''  pfizer pharma  , NY'' = Some ''pfizer pharma''
   \<and> re_search company_name_pattern ''State University, Boston'' = None
   \<and> \<not> is_company_affiliation (Some ''State University, Boston'')
   \<and> extract_company_name ''State University, Boston'' = None"
proof -
  have r: "re_search company_name_pattern ''Research Division, Moderna Inc.'' = Some (19, 31)"
    by code_simp
  have t: "trimmed_of (substr ''Research Division, Moderna Inc.'' 19 31) ''Moderna Inc.''"
    by code_simp
  have n: "re_search company_name_pattern ''  pfizer pharma  , NY'' = None"
    by code_simp
  have c: "is_company_affiliation (Some ''  pfizer pharma  , NY'')"
    by code_simp
  have u: "trimmed_of (takeWhile (\<lambda>c. c \<noteq> CHR '','') ''  pfizer pharma  , NY'') ''pfizer pharma''"
    by code_simp
  have m: "re_search company_name_pattern ''State University, Boston'' = None"
    by code_simp
  have a: "\<not> is_company_affiliation (Some ''State University, Boston'')"
    by code_simp
  from extract_company_name_chain [of "''Research Division, Moderna Inc.''" "''Moderna Inc.''"] r t
  have 1: "extract_company_name ''Research Division, Moderna Inc.'' = Some ''Moderna Inc.''"
    by simp
  from extract_company_name_chain [of "''  pfizer pharma  , NY''" "''pfizer pharma''"] n c u
  have 2: "extract_company_name ''  pfizer pharma  , NY'' = Some ''pfizer pharma''"
    by simp
  from extract_company_name_chain [of "''State University, Boston''" "[]"] m a
  have 3: "extract_company_name ''State University, Boston'' = None"
    by simp
  from r t n c u m a 1 2 3 show ?thesis by blast
qed

lemma fold_company_names:
  "fold (\<lambda>affiliation companies.
             if is_company_affiliation (Some affiliation) then
               (case extract_company_name affiliation of
                  Some company_name \<Rightarrow>
                    if company_name \<noteq> [] then insert company_name companies else companies
                | None \<Rightarrow> companies)
             else companies) xs acc
   = acc \<union> {n. \<exists>a\<in>set xs. is_company_affiliation (Some a)
                    \<and> extract_company_name a = Some n \<and> n \<noteq> []}"
  by (induction xs arbitrary: acc) (auto split: option.splits)

text \<open>
  Claim C7. \<open>get_company_affiliations\<close> returns the set of the non-empty company names
  extracted from the inputs classified as companies; a permutation of the input list gives
  the same set.
\<close>

theorem company_set_order_independent:
  "get_company_affiliations xs =
     {n. \<exists>a\<in>set xs. is_company_affiliation (Some a) \<and> extract_company_name a = Some n \<and> n \<noteq> []}
   \<and> (mset ys = mset xs \<longrightarrow> get_company_affiliations ys = get_company_affiliations xs)"
proof -
  have eq: "\<And>zs. get_company_affiliations zs =
     {n. \<exists>a\<in>set zs. is_company_affiliation (Some a) \<and> extract_company_name a = Some n \<and> n \<noteq> []}"
    unfolding get_company_affiliations_def by (simp add: fold_company_names)
  have "mset ys = mset xs \<Longrightarrow> set ys = set xs" by (rule mset_eq_setD)
  then show ?thesis using eq by simp
qed

theorem company_set_order_independent_witness:
  "mset [''Acme Corp'', ''State University'', ''Moderna Inc.'']
     = mset [''Moderna Inc.'', ''Acme Corp'', ''State University'']
   \<and> get_company_affiliations [''Acme Corp'', ''State University'', ''Moderna Inc.'']
     = get_company_affiliations [''Moderna Inc.'', ''Acme Corp'', ''State University'']
   \<and> get_company_affiliations [''Moderna Inc.'', ''Acme Corp'', ''State University'']
     = {''Acme Corp'', ''Moderna Inc.''}"
proof -
  have m: "mset [''Acme Corp'', ''State University'', ''Moderna Inc.'']
     = mset [''Moderna Inc.'', ''Acme Corp'', ''State University'']"
    by simp
  have v: "get_company_affiliations [''Moderna Inc.'', ''Acme Corp'', ''State University'']
     = {''Acme Corp'', ''Moderna Inc.''}"
    by code_simp
  from company_set_order_independent
         [of "[''Moderna Inc.'', ''Acme Corp'', ''State University'']"
             "[''Acme Corp'', ''State University'', ''Moderna Inc.'']"] m v
  show ?thesis by blast
qed

section \<open>Matches of regular expressions\<close>

declare ends.simps(7) [simp del]

lemma ends_Star:
  "set (ends (Star a) s i) =
     insert i (\<Union>k\<in>{k \<in> set (ends a s i). i < k \<and> k \<le> length s}. set (ends (Star a) s k))"
  by (subst ends.simps(7)) auto

lemma ends_bounds:
  "j \<in> set (ends r s i) \<Longrightarrow> i \<le> length s \<Longrightarrow> i \<le> j \<and> j \<le> length s"
proof (induction r s i arbitrary: j rule: ends.induct)
  case (1 P s i)
  then show ?case by (simp split: if_splits)
next
  case (2 s i)
  then show ?case by simp
next
  case (3 s i)
  then show ?case by (simp split: if_splits)
next
  case (4 s i)
  then show ?case by (simp split: if_splits)
next
  case (5 a b s i)
  from "5.prems"(1) obtain k where k: "k \<in> set (ends a s i)" "j \<in> set (ends b s k)"
    by auto
  from "5.IH"(1) [OF k(1) "5.prems"(2)] have ik: "i \<le> k \<and> k \<le> length s" .
  with "5.IH"(2) [OF k(1) k(2)] show ?case by linarith
next
  case (6 a b s i)
  from "6.prems"(1) have "j \<in> set (ends a s i) \<or> j \<in> set (ends b s i)" by simp
  with "6.IH" "6.prems"(2) show ?case by blast
next
  case (7 a s i)
  show ?case
  proof (cases "j = i")
    case True
    with "7.prems" show ?thesis by simp
  next
    case False
    with "7.prems"(1) obtain k where k: "k \<in> set (ends a s i)" "i < k" "k \<le> length s"
      "j \<in> set (ends (Star a) s k)"
      unfolding ends_Star [of a s i] by blast
    from "7.IH"(2) [OF k(1) _ k(4)] k(2,3) show ?thesis by linarith
  qed
qed

lemma search_in_Some:
  "search_in r s is = Some (i, j) \<Longrightarrow> i \<in> set is \<and> j \<in> set (ends r s i)"
  by (induction "is") (auto split: list.splits)

lemma re_search_Some:
  assumes "re_search r s = Some (i, j)"
  shows "i \<le> j \<and> j \<le> length s \<and> j \<in> set (ends r s i)"
proof -
  from assms have "i \<in> set [0..<Suc (length s)]" "j \<in> set (ends r s i)"
    unfolding re_search_def using search_in_Some by blast+
  then show ?thesis using ends_bounds [of j r s i] by auto
qed

lemma ends_Plus_Cls_progress:
  assumes "j \<in> set (ends (Seq (Plus (Cls P)) r) s i)"
  shows "i < j \<and> j \<le> length s"
proof -
  from assms obtain k where k: "k \<in> set (ends (Plus (Cls P)) s i)" "j \<in> set (ends r s k)"
    by auto
  from k(1) have i: "i < length s" and "k \<in> set (ends (Star (Cls P)) s (Suc i))"
    by (auto simp: Plus_def split: if_splits)
  then have "Suc i \<le> k \<and> k \<le> length s" using ends_bounds [of k "Star (Cls P)" s "Suc i"] by simp
  with k(2) ends_bounds [of j r s k] show ?thesis by auto
qed

lemma substr_nonempty: "i < j \<Longrightarrow> j \<le> length s \<Longrightarrow> substr s i j \<noteq> []"
  by (simp add: substr_def)

lemma extract_email_Some:
  "extract_email t = Some e \<Longrightarrow> \<exists>i j. re_search email_pattern t = Some (i, j) \<and> e = substr t i j"
  unfolding extract_email_def by (simp split: if_splits option.splits prod.splits)

lemma ends_email_progress:
  "j \<in> set (ends email_pattern t i) \<Longrightarrow> i < j \<and> j \<le> length t"
  apply (simp only: email_pattern_def seqs_def Let_def foldr.simps o_apply)
  apply (erule ends_Plus_Cls_progress)
  done

lemma extract_email_nonempty:
  assumes "extract_email t = Some e"
  shows "e \<noteq> []"
proof -
  from extract_email_Some [OF assms]
  obtain i j where ij: "re_search email_pattern t = Some (i, j)" "e = substr t i j"
    by (elim exE conjE)
  from re_search_Some [OF ij(1)] have "j \<in> set (ends email_pattern t i)" by simp
  then have "i < j \<and> j \<le> length t" by (rule ends_email_progress)
  with ij(2) show ?thesis by (simp add: substr_nonempty)
qed

lemma first_email_nonempty: "first_email es = Some e \<Longrightarrow> e \<noteq> []"
  by (induction es) (auto split: option.splits if_splits)

lemma corresponding_loop_nonempty: "corresponding_loop as = Some e \<Longrightarrow> e \<noteq> []"
  by (induction as) (auto split: option.splits if_splits dest: first_email_nonempty)

lemma corresponding_email_nonempty:
  "extract_corresponding_author_email article = Some e \<Longrightarrow> e \<noteq> []"
  by (auto simp: extract_corresponding_author_email_def split: option.splits
           dest: first_email_nonempty corresponding_loop_nonempty)

section \<open>Month names\<close>

lemma strptime_b_raises: "strptime_b t = Inl e \<Longrightarrow> e = ValueError"
  by (auto simp: strptime_b_def split: option.splits)

lemma month_names_eq:
  "month_names m = Inr (case numeric_month m of Some x \<Rightarrow> x | None \<Rightarrow> ''XX'')"
  by (simp add: month_names_def numeric_month_def strptime_b_def split: option.splits)

lemma numeric_month_XX: "numeric_month ''XX'' = None"
  by code_simp

section \<open>Publication dates\<close>

lemma month_names_of_text:
  "month_names (text_or e ''XX'') =
     Inr (case Option.bind (nonempty_text e) numeric_month of Some x \<Rightarrow> x | None \<Rightarrow> ''XX'')"
  by (cases "nonempty_text e") (simp_all add: text_or_def month_names_eq numeric_month_XX)

text \<open>
  Claim C3. For a date with its year, month and day the claim and the docstring of
  \<open>extract_publication_date\<close> give the format \<open>YYYY-MM-DD\<close>. The source pads a month
  converted from a name to two digits, with \<open>zfill(2)\<close>, and appends a numeric month and
  the day as they are: Year 2023, Month Jan, Day 7 gives \<open>2023-01-7\<close>, and Year 2023,
  Month 3, Day 05 gives \<open>2023-3-05\<close>, neither of that format. The three dates named in
  the claim are as it says.
\<close>

theorem publication_date_not_padded:
  "extract_publication_date
     (node ''PubmedArticle''
        [node ''PubDate'' [leaf ''Year'' ''2023'', leaf ''Month'' ''Jan'', leaf ''Day'' ''7'']])
     = Inr ''2023-01-7''
   \<and> \<not> full_date ''2023-01-7''
   \<and> extract_publication_date
     (node ''PubmedArticle''
        [node ''PubDate'' [leaf ''Year'' ''2023'', leaf ''Month'' ''3'', leaf ''Day'' ''05'']])
     = Inr ''2023-3-05''
   \<and> \<not> full_date ''2023-3-05''
   \<and> extract_publication_date
     (node ''PubmedArticle''
        [node ''PubDate'' [leaf ''Year'' ''2023'', leaf ''Month'' ''Jan'', leaf ''Day'' ''15'']])
     = Inr ''2023-01-15''
   \<and> full_date ''2023-01-15''
   \<and> extract_publication_date
     (node ''PubmedArticle'' [node ''PubDate'' [leaf ''Year'' ''2023'']]) = Inr ''2023''
   \<and> extract_publication_date (node ''PubmedArticle'' []) = Inr ''Unknown Date''"
  by code_simp

section \<open>Element trees\<close>

lemma iter_elems_self: "e \<in> set (iter_elems e)"
  by (cases e) simp

lemma iter_elems_unfold: "iter_elems e = e # concat (map iter_elems (el_children e))"
  by (cases e) simp

lemma child_in_descendants:
  "d \<in> set (iter_elems e) \<Longrightarrow> c \<in> set (el_children d) \<Longrightarrow>
   c \<in> set (concat (map iter_elems (el_children e)))"
proof (induction e)
  case (Element t a x cs)
  from Element.prems(1) consider "d = Element t a x cs"
    | c' where "c' \<in> set cs" "d \<in> set (iter_elems c')"
    by auto
  then show ?case
  proof cases
    case 1
    with Element.prems(2) have "c \<in> set cs" by simp
    then show ?thesis using iter_elems_self by auto
  next
    case 2
    from Element.IH [OF 2(1) 2(2) Element.prems(2)]
    have "c \<in> set (iter_elems c')" by (subst iter_elems_unfold) simp
    with 2(1) show ?thesis by auto
  qed
qed

lemma find_first_Some: "find_first es = Some e \<Longrightarrow> e \<in> set es"
  by (cases es) (auto simp: find_first_def)

lemma no_authors_no_entries:
  assumes "findall_descendant ''Author'' article = []"
  shows "extract_author_affiliations article = []"
proof (cases "find_first (findall_descendant ''AuthorList'' article)")
  case None
  then show ?thesis by (simp add: extract_author_affiliations_def)
next
  case (Some al)
  then have al: "al \<in> set (concat (map iter_elems (el_children article)))"
    by (auto dest!: find_first_Some simp: findall_descendant_def)
  then have al': "al \<in> set (iter_elems article)" by (subst iter_elems_unfold) simp
  have "findall_child ''Author'' al = []"
  proof (rule ccontr)
    assume "findall_child ''Author'' al \<noteq> []"
    then obtain c where c: "c \<in> set (el_children al)" "el_tag c = ''Author''"
      by (auto simp: findall_child_def filter_empty_conv)
    from child_in_descendants [OF al' c(1)] c(2)
    have "c \<in> set (findall_descendant ''Author'' article)"
      by (simp add: findall_descendant_def)
    with assms show False by simp
  qed
  with Some show ?thesis by (simp add: extract_author_affiliations_def map_filter_simps)
qed

section \<open>The record of an article\<close>

lemma nonempty_text_Some: "nonempty_text e = Some t \<Longrightarrow> t \<noteq> []"
  by (auto simp: nonempty_text_def split: option.splits if_splits)

lemma text_or_nonempty: "d \<noteq> [] \<Longrightarrow> text_or e d \<noteq> []"
  by (auto simp: text_or_def split: option.splits dest: nonempty_text_Some)

lemma text_or_missing: "nonempty_text e = None \<Longrightarrow> text_or e d = d"
  by (simp add: text_or_def)

lemma publication_date_returns:
  "\<exists>d. extract_publication_date article = Inr d \<and> d \<noteq> []"
proof (cases "find_first (findall_descendant ''PubDate'' article)")
  case None
  then show ?thesis by (simp add: extract_publication_date_def)
next
  case (Some pd)
  have "text_or (find_first (findall_child ''Year'' pd)) ''XXXX'' \<noteq> []"
    by (rule text_or_nonempty) simp
  with Some show ?thesis
    by (simp add: extract_publication_date_def month_names_of_text Let_def)
qed

lemma publication_date_missing:
  assumes "find_first (findall_descendant ''PubDate'' article) = None
           \<or> (\<exists>pd. find_first (findall_descendant ''PubDate'' article) = Some pd
                   \<and> nonempty_text (find_first (findall_child ''Year'' pd)) = None)"
  shows "extract_publication_date article = Inr ''Unknown Date''"
  using assms
  by (auto simp: extract_publication_date_def month_names_of_text Let_def text_or_missing)

lemma author_entry_name: "author_entry author = Some (n, a, e) \<Longrightarrow> n \<noteq> []"
  by (auto simp: author_entry_def Let_def split: option.splits dest: nonempty_text_Some)

lemma map_filter_member:
  "y \<in> set (List.map_filter f xs) \<Longrightarrow> \<exists>x\<in>set xs. f x = Some y"
  by (induction xs) (auto split: option.splits)

lemma entries_names:
  assumes "(n, a, e) \<in> set (extract_author_affiliations article)"
  shows "n \<noteq> []"
proof -
  from assms obtain author where "author_entry author = Some (n, a, e)"
    by (auto simp: extract_author_affiliations_def split: option.splits
             dest!: map_filter_member)
  then show ?thesis by (rule author_entry_name)
qed

lemma classify_fold_invariant:
  assumes "fold classify_step es (ns, cs) = (ns', cs')"
      and "\<forall>x\<in>set es. fst x \<noteq> []"
      and "[] \<notin> set ns" "[] \<notin> cs" "finite cs"
  shows "[] \<notin> set ns' \<and> [] \<notin> cs' \<and> finite cs'"
  using assms
proof (induction es arbitrary: ns cs)
  case Nil
  then show ?case by simp
next
  case (Cons x es)
  obtain ns1 cs1 where s: "classify_step x (ns, cs) = (ns1, cs1)" by (cases "classify_step x (ns, cs)")
  obtain n a e where x: "x = (n, a, e)" by (cases x)
  from Cons.prems(2) x have n: "n \<noteq> []" by simp
  from s x n Cons.prems(3-5) have inv: "[] \<notin> set ns1" "[] \<notin> cs1" "finite cs1"
    by (auto simp: classify_step_def split: if_splits option.splits)
  from Cons.prems(1) s have "fold classify_step es (ns1, cs1) = (ns', cs')" by simp
  from Cons.IH [OF this _ inv] Cons.prems(2) show ?case by simp
qed

lemma py_join_nonempty: "xs \<noteq> [] \<Longrightarrow> [] \<notin> set xs \<Longrightarrow> py_join sep xs \<noteq> []"
proof (cases xs)
  case Nil
  assume "xs \<noteq> []" with Nil show ?thesis by simp
next
  case (Cons x ys)
  assume "[] \<notin> set xs"
  with Cons have "x \<noteq> []" by auto
  with Cons show ?thesis by (cases ys) simp_all
qed

lemma extract_title_nonempty: "extract_title article \<noteq> []"
  unfolding extract_title_def by (rule text_or_nonempty) simp

lemma parse_article_record:
  assumes "extract_publication_date article = Inr d"
      and "fold classify_step (extract_author_affiliations article) ([], {}) = (ns, cs)"
  shows "parse_article set_order pmid article =
     Inr \<lparr> PubmedID = (if pmid \<noteq> [] then pmid else ''PubMed ID Not Found''),
           Title = extract_title article,
           PublicationDate = d,
           NonAcademicAuthors =
             (if ns \<noteq> [] then py_join ''; '' ns else ''No Non-Academic Authors''),
           CompanyAffiliations =
             (if cs \<noteq> {} then py_join ''; '' (set_order cs) else ''No Company Affiliations''),
           CorrespondingAuthorEmail =
             (case extract_corresponding_author_email article of
                None \<Rightarrow> ''Email Not Found''
              | Some email \<Rightarrow> if email = [] then ''Email Not Found'' else email) \<rparr>"
  using assms by (simp add: parse_article_def Let_def)

text \<open>
  Claim C2. For every identifier and every article element, \<open>parse_article\<close> returns a
  record and raises nothing, and so does \<open>extract_publication_date\<close>, the one extractor
  with an operation that can raise (the other extractors are total functions of the
  element); a missing or empty field gives its sentinel: the identifier, the title, the
  date (no publication date, or no year in it), the authors and companies (no author list)
  and the email.
\<close>

theorem parse_article_never_raises:
  "\<exists>r. parse_article set_order pmid article = Inr r
      \<and> (\<exists>d. extract_publication_date article = Inr d)
      \<and> (pmid = [] \<longrightarrow> PubmedID r = ''PubMed ID Not Found'')
      \<and> (nonempty_text (find_first (findall_descendant ''ArticleTitle'' article)) = None
           \<longrightarrow> Title r = ''Unknown Title'')
      \<and> (find_first (findall_descendant ''PubDate'' article) = None
           \<or> (\<exists>pd. find_first (findall_descendant ''PubDate'' article) = Some pd
                   \<and> nonempty_text (find_first (findall_child ''Year'' pd)) = None)
           \<longrightarrow> PublicationDate r = ''Unknown Date'')
      \<and> (find_first (findall_descendant ''AuthorList'' article) = None
           \<longrightarrow> NonAcademicAuthors r = ''No Non-Academic Authors''
               \<and> CompanyAffiliations r = ''No Company Affiliations'')
      \<and> (extract_corresponding_author_email article = None
           \<longrightarrow> CorrespondingAuthorEmail r = ''Email Not Found'')"
proof -
  obtain d where d: "extract_publication_date article = Inr d"
    using publication_date_returns by blast
  obtain ns cs where f: "fold classify_step (extract_author_affiliations article) ([], {}) = (ns, cs)"
    by (cases "fold classify_step (extract_author_affiliations article) ([], {})")
  note r = parse_article_record [OF d f, of set_order pmid]
  have t: "nonempty_text (find_first (findall_descendant ''ArticleTitle'' article)) = None
           \<Longrightarrow> extract_title article = ''Unknown Title''"
    by (simp add: extract_title_def text_or_missing)
  have p: "find_first (findall_descendant ''PubDate'' article) = None
           \<or> (\<exists>pd. find_first (findall_descendant ''PubDate'' article) = Some pd
                   \<and> nonempty_text (find_first (findall_child ''Year'' pd)) = None)
           \<Longrightarrow> d = ''Unknown Date''"
    using publication_date_missing [of article] d by simp
  have a: "find_first (findall_descendant ''AuthorList'' article) = None \<Longrightarrow> ns = [] \<and> cs = {}"
    using f by (simp add: extract_author_affiliations_def)
  show ?thesis
    unfolding r using d t p a by auto
qed

theorem parse_article_never_raises_witness:
  "nonempty_text (find_first (findall_descendant ''ArticleTitle'' (node ''PubmedArticle'' []))) = None
   \<and> find_first (findall_descendant ''PubDate'' (node ''PubmedArticle'' [])) = None
   \<and> find_first (findall_descendant ''AuthorList'' (node ''PubmedArticle'' [])) = None
   \<and> extract_corresponding_author_email (node ''PubmedArticle'' []) = None
   \<and> (\<exists>r. parse_article sorted_list_of_set [] (node ''PubmedArticle'' []) = Inr r
          \<and> PubmedID r = ''PubMed ID Not Found'' \<and> Title r = ''Unknown Title''
          \<and> PublicationDate r = ''Unknown Date''
          \<and> NonAcademicAuthors r = ''No Non-Academic Authors''
          \<and> CompanyAffiliations r = ''No Company Affiliations''
          \<and> CorrespondingAuthorEmail r = ''Email Not Found'')"
proof -
  have 1: "nonempty_text (find_first (findall_descendant ''ArticleTitle'' (node ''PubmedArticle'' []))) = None"
    by code_simp
  have 2: "find_first (findall_descendant ''PubDate'' (node ''PubmedArticle'' [])) = None"
    by code_simp
  have 3: "find_first (findall_descendant ''AuthorList'' (node ''PubmedArticle'' [])) = None"
    by code_simp
  have 4: "extract_corresponding_author_email (node ''PubmedArticle'' []) = None"
    by code_simp
  from parse_article_never_raises [of sorted_list_of_set "[]" "node ''PubmedArticle'' []"] 1 2 3 4
  show ?thesis by auto
qed

text \<open>
  Claim C8, as amended. For an article with no author node, \<open>parse_article\<close> returns a
  record whose non-academic authors are \<open>No Non-Academic Authors\<close> and whose company
  affiliations are \<open>No Company Affiliations\<close>; its corresponding-author email is the first
  email extracted from the affiliation texts of the document, which need no author around
  them, and \<open>Email Not Found\<close> when there is none.
\<close>

theorem no_authors_record:
  assumes "findall_descendant ''Author'' article = []"
  shows "\<exists>r. parse_article set_order pmid article = Inr r
      \<and> NonAcademicAuthors r = ''No Non-Academic Authors''
      \<and> CompanyAffiliations r = ''No Company Affiliations''
      \<and> CorrespondingAuthorEmail r =
          (case first_email (child_step ''Affiliation''
                  (findall_descendant ''AffiliationInfo'' article)) of
             None \<Rightarrow> ''Email Not Found''
           | Some email \<Rightarrow> email)"
proof -
  obtain d where d: "extract_publication_date article = Inr d"
    using publication_date_returns by blast
  have f: "fold classify_step (extract_author_affiliations article) ([], {}) = ([], {})"
    by (simp add: no_authors_no_entries [OF assms])
  note r = parse_article_record [OF d f, of set_order pmid]
  have e: "extract_corresponding_author_email article =
      first_email (child_step ''Affiliation'' (findall_descendant ''AffiliationInfo'' article))"
    by (simp add: extract_corresponding_author_email_def assms)
  show ?thesis
    unfolding r e by (auto split: option.splits dest: first_email_nonempty)
qed

theorem no_authors_record_witness:
  "findall_descendant ''Author'' (node ''PubmedArticle'' [leaf ''ArticleTitle'' ''A study'']) = []
   \<and> (\<exists>r. parse_article sorted_list_of_set ''1''
              (node ''PubmedArticle'' [leaf ''ArticleTitle'' ''A study'']) = Inr r
          \<and> NonAcademicAuthors r = ''No Non-Academic Authors''
          \<and> CompanyAffiliations r = ''No Company Affiliations''
          \<and> CorrespondingAuthorEmail r = ''Email Not Found'')"
proof -
  let ?doc = "node ''PubmedArticle'' [leaf ''ArticleTitle'' ''A study'']"
  have a: "findall_descendant ''Author'' ?doc = []" by code_simp
  have b: "first_email (child_step ''Affiliation'' (findall_descendant ''AffiliationInfo'' ?doc)) = None"
    by code_simp
  from no_authors_record [OF a, of sorted_list_of_set "''1''"] a b show ?thesis by auto
qed

text \<open>
  Claim C8 as stated fails: an article with no author node and an investigator whose
  affiliation holds an email address gets that address, not \<open>Email Not Found\<close>.
\<close>

theorem no_authors_email_counterexample:
  "findall_descendant ''Author''
     (node ''PubmedArticle'' [node ''InvestigatorList'' [node ''Investigator''
        [leaf ''LastName'' ''Roe'',
         node ''AffiliationInfo'' [leaf ''Affiliation'' ''NIH, Bethesda. roe@nih.gov'']]]]) = []
   \<and> parse_article sorted_list_of_set ''1''
     (node ''PubmedArticle'' [node ''InvestigatorList'' [node ''Investigator''
        [leaf ''LastName'' ''Roe'',
         node ''AffiliationInfo'' [leaf ''Affiliation'' ''NIH, Bethesda. roe@nih.gov'']]]])
     = Inr \<lparr>PubmedID = ''1'', Title = ''Unknown Title'', PublicationDate = ''Unknown Date'',
            NonAcademicAuthors = ''No Non-Academic Authors'',
            CompanyAffiliations = ''No Company Affiliations'',
            CorrespondingAuthorEmail = ''roe@nih.gov''\<rparr>"
  by code_simp

text \<open>
  Claim C9. In whatever order the set of company names is iterated (\<open>set_order\<close> lists
  the elements of that set), each of the
  six fields of the record returned by \<open>parse_article\<close> is a non-empty string, and neither
  the list of author names nor the set of company names that are joined contains the empty
  string.
\<close>

theorem record_fields_nonempty:
  assumes "set (set_order (snd (fold classify_step (extract_author_affiliations article) ([], {}))))
             = snd (fold classify_step (extract_author_affiliations article) ([], {}))"
  shows "\<exists>r. parse_article set_order pmid article = Inr r
      \<and> PubmedID r \<noteq> [] \<and> Title r \<noteq> [] \<and> PublicationDate r \<noteq> []
      \<and> NonAcademicAuthors r \<noteq> [] \<and> CompanyAffiliations r \<noteq> []
      \<and> CorrespondingAuthorEmail r \<noteq> []
      \<and> [] \<notin> set (fst (fold classify_step (extract_author_affiliations article) ([], {})))
      \<and> [] \<notin> snd (fold classify_step (extract_author_affiliations article) ([], {}))"
proof -
  obtain d where d: "extract_publication_date article = Inr d" "d \<noteq> []"
    using publication_date_returns by blast
  obtain ns cs where f: "fold classify_step (extract_author_affiliations article) ([], {}) = (ns, cs)"
    by (cases "fold classify_step (extract_author_affiliations article) ([], {})")
  note r = parse_article_record [OF d(1) f, of set_order pmid]
  have names: "\<forall>x\<in>set (extract_author_affiliations article). fst x \<noteq> []"
    using entries_names by auto
  from classify_fold_invariant [OF f names]
  have inv: "[] \<notin> set ns" "[] \<notin> cs" "finite cs" by simp_all
  from assms f have so: "set (set_order cs) = cs" by simp
  have n: "ns \<noteq> [] \<Longrightarrow> py_join ''; '' ns \<noteq> []"
    using inv(1) by (simp add: py_join_nonempty)
  have c: "cs \<noteq> {} \<Longrightarrow> py_join ''; '' (set_order cs) \<noteq> []"
  proof -
    assume "cs \<noteq> {}"
    with so have "set_order cs \<noteq> []" by auto
    moreover from so inv(2) have "[] \<notin> set (set_order cs)" by simp
    ultimately show ?thesis by (rule py_join_nonempty)
  qed
  have e: "(case extract_corresponding_author_email article of
                None \<Rightarrow> ''Email Not Found''
              | Some email \<Rightarrow> if email = [] then ''Email Not Found'' else email) \<noteq> []"
    by (simp split: option.splits)
  show ?thesis
    unfolding r f using d(2) n c e inv extract_title_nonempty [of article] by simp
qed

theorem record_fields_nonempty_witness:
  "snd (fold classify_step (extract_author_affiliations
        (node ''PubmedArticle'' [node ''AuthorList''
           [node ''Author'' [leaf ''LastName'' ''Doe'', leaf ''Initials'' ''J'',
              node ''AffiliationInfo'' [leaf ''Affiliation'' ''Moderna Inc., Cambridge'']]]])) ([], {}))
      = {''Moderna Inc.''}
   \<and> set (sorted_list_of_set {''Moderna Inc.''}) = {''Moderna Inc.''}
   \<and> parse_article sorted_list_of_set ''7''
        (node ''PubmedArticle'' [node ''AuthorList''
           [node ''Author'' [leaf ''LastName'' ''Doe'', leaf ''Initials'' ''J'',
              node ''AffiliationInfo'' [leaf ''Affiliation'' ''Moderna Inc., Cambridge'']]]])
      = Inr \<lparr>PubmedID = ''7'', Title = ''Unknown Title'', PublicationDate = ''Unknown Date'',
             NonAcademicAuthors = ''J Doe'', CompanyAffiliations = ''Moderna Inc.'',
             CorrespondingAuthorEmail = ''Email Not Found''\<rparr>
   \<and> (\<exists>r. parse_article sorted_list_of_set ''7''
        (node ''PubmedArticle'' [node ''AuthorList''
           [node ''Author'' [leaf ''LastName'' ''Doe'', leaf ''Initials'' ''J'',
              node ''AffiliationInfo'' [leaf ''Affiliation'' ''Moderna Inc., Cambridge'']]]])
          = Inr r
        \<and> PubmedID r \<noteq> [] \<and> Title r \<noteq> [] \<and> PublicationDate r \<noteq> []
        \<and> NonAcademicAuthors r \<noteq> [] \<and> CompanyAffiliations r \<noteq> []
        \<and> CorrespondingAuthorEmail r \<noteq> [])"
proof -
  let ?doc = "(node ''PubmedArticle'' [node ''AuthorList''
           [node ''Author'' [leaf ''LastName'' ''Doe'', leaf ''Initials'' ''J'',
              node ''AffiliationInfo'' [leaf ''Affiliation'' ''Moderna Inc., Cambridge'']]]])"
  have c: "snd (fold classify_step (extract_author_affiliations ?doc) ([], {})) = {''Moderna Inc.''}"
    by code_simp
  have o: "set (sorted_list_of_set {''Moderna Inc.''}) = {''Moderna Inc.''}"
    by simp
  have h: "set (sorted_list_of_set (snd (fold classify_step (extract_author_affiliations ?doc) ([], {}))))
      = snd (fold classify_step (extract_author_affiliations ?doc) ([], {}))"
    by (simp only: c o)
  have v: "parse_article sorted_list_of_set ''7'' ?doc
      = Inr \<lparr>PubmedID = ''7'', Title = ''Unknown Title'', PublicationDate = ''Unknown Date'',
             NonAcademicAuthors = ''J Doe'', CompanyAffiliations = ''Moderna Inc.'',
             CorrespondingAuthorEmail = ''Email Not Found''\<rparr>"
    by code_simp
  from record_fields_nonempty [of sorted_list_of_set ?doc "''7''", OF h]
  have "\<exists>r. parse_article sorted_list_of_set ''7'' ?doc = Inr r
        \<and> PubmedID r \<noteq> [] \<and> Title r \<noteq> [] \<and> PublicationDate r \<noteq> []
        \<and> NonAcademicAuthors r \<noteq> [] \<and> CompanyAffiliations r \<noteq> []
        \<and> CorrespondingAuthorEmail r \<noteq> []"
    by blast
  with c o v show ?thesis by blast
qed

section \<open>The corresponding author's email\<close>

lemma first_email_append:
  "first_email (xs @ ys) =
     (case first_email xs of Some e \<Rightarrow> Some e | None \<Rightarrow> first_email ys)"
  by (induction xs) (auto split: option.splits)

lemma corresponding_loop_flat:
  "corresponding_loop authors =
     first_email (concat (map (\<lambda>a. child_step ''Affiliation'' (findall_child ''AffiliationInfo'' a))
                              (filter is_corresponding authors)))"
  by (induction authors) (auto simp: first_email_append is_corresponding_def split: option.splits)

lemma first_email_find:
  "first_email es =
     (case List.find (\<lambda>a. affiliation_email a \<noteq> None) es of
        None \<Rightarrow> None
      | Some a \<Rightarrow> affiliation_email a)"
proof (induction es)
  case Nil
  show ?case by simp
next
  case (Cons a es)
  show ?case
  proof (cases "affiliation_email a")
    case None
    then have "first_email (a # es) = first_email es"
      by (auto simp: affiliation_email_def split: option.splits if_splits)
    with None Cons show ?thesis by simp
  next
    case (Some e)
    then have "extract_email (the (el_text a)) = Some e" "el_text a \<noteq> None" "the (el_text a) \<noteq> []"
      by (auto simp: affiliation_email_def split: option.splits if_splits)
    moreover from this have "e \<noteq> []" using extract_email_nonempty by blast
    ultimately have "first_email (a # es) = Some e" by auto
    with Some show ?thesis by simp
  qed
qed

lemma child_step_append: "child_step t (xs @ ys) = child_step t xs @ child_step t ys"
  by (simp add: child_step_def)

lemma child_step_concat: "child_step t (concat xss) = concat (map (child_step t) xss)"
  by (induction xss) (simp_all add: child_step_append, simp add: child_step_def)

lemma selected_concat:
  "concat (map (\<lambda>c. child_step t (filter P (iter_elems c))) cs) =
   child_step t (filter P (concat (map iter_elems cs)))"
  by (induction cs) (simp_all add: child_step_def)

lemma affiliations_without_info:
  "\<forall>d\<in>set (iter_elems e). el_tag d \<noteq> ''AffiliationInfo'' \<Longrightarrow>
   affiliations_under b e = (if b \<and> el_tag e = ''Affiliation'' then [e] else [])"
proof (induction e arbitrary: b)
  case (Element t a x cs)
  from Element.prems have t: "t \<noteq> ''AffiliationInfo''" by simp
  have "\<And>c. c \<in> set cs \<Longrightarrow> affiliations_under False c = []"
  proof -
    fix c assume c: "c \<in> set cs"
    with Element.prems have "\<forall>d\<in>set (iter_elems c). el_tag d \<noteq> ''AffiliationInfo''" by auto
    from Element.IH [OF c this, of False] show "affiliations_under False c = []" by simp
  qed
  then have "concat (map (affiliations_under False) cs) = []" by simp
  with t show ?case by simp
qed

lemma info_free_selects_nothing:
  "\<forall>d\<in>set es. el_tag d \<noteq> ''AffiliationInfo'' \<Longrightarrow>
   child_step ''Affiliation'' (filter (\<lambda>d. el_tag d = ''AffiliationInfo'') es) = []"
  by (simp add: child_step_def filter_empty_conv [THEN iffD2])

lemma affiliations_in_document_order:
  "\<forall>d\<in>set (iter_elems e).
      el_tag d = ''AffiliationInfo'' \<longrightarrow> findall_descendant ''AffiliationInfo'' d = [] \<Longrightarrow>
   concat (map (affiliations_under (el_tag e = ''AffiliationInfo'')) (el_children e)) =
     child_step ''Affiliation'' (filter (\<lambda>d. el_tag d = ''AffiliationInfo'') (iter_elems e))"
proof (induction e)
  case (Element t a x cs)
  let ?e = "Element t a x cs"
  let ?sel = "\<lambda>es. child_step ''Affiliation'' (filter (\<lambda>d. el_tag d = ''AffiliationInfo'') es)"
  have sub: "\<And>c. c \<in> set cs \<Longrightarrow> set (iter_elems c) \<subseteq> set (iter_elems ?e)" by auto
  show ?case
  proof (cases "t = ''AffiliationInfo''")
    case True
    with Element.prems have "findall_descendant ''AffiliationInfo'' ?e = []" by simp
    then have free: "\<forall>d\<in>set (concat (map iter_elems cs)). el_tag d \<noteq> ''AffiliationInfo''"
      by (simp add: findall_descendant_def filter_empty_conv)
    have "\<And>c. c \<in> set cs \<Longrightarrow>
        affiliations_under True c = (if el_tag c = ''Affiliation'' then [c] else [])"
    proof -
      fix c assume c: "c \<in> set cs"
      with free have "\<forall>d\<in>set (iter_elems c). el_tag d \<noteq> ''AffiliationInfo''" by auto
      from affiliations_without_info [OF this, of True]
      show "affiliations_under True c = (if el_tag c = ''Affiliation'' then [c] else [])" by simp
    qed
    then have l: "concat (map (affiliations_under True) cs) =
        filter (\<lambda>c. el_tag c = ''Affiliation'') cs"
      by (induction cs) auto
    have r: "?sel (iter_elems ?e) = filter (\<lambda>c. el_tag c = ''Affiliation'') cs"
      using True info_free_selects_nothing [OF free]
      by (simp add: child_step_def findall_child_def)
    from l r True show ?thesis by simp
  next
    case False
    have "\<And>c. c \<in> set cs \<Longrightarrow> affiliations_under False c = ?sel (iter_elems c)"
    proof -
      fix c assume c: "c \<in> set cs"
      with Element.prems sub have p: "\<forall>d\<in>set (iter_elems c).
          el_tag d = ''AffiliationInfo'' \<longrightarrow> findall_descendant ''AffiliationInfo'' d = []"
        by blast
      obtain t' a' x' cs' where c': "c = Element t' a' x' cs'" by (cases c)
      have "affiliations_under False c =
          concat (map (affiliations_under (el_tag c = ''AffiliationInfo'')) (el_children c))"
        by (simp add: c')
      with Element.IH [OF c p] show "affiliations_under False c = ?sel (iter_elems c)" by simp
    qed
    then have "concat (map (affiliations_under False) cs) =
        concat (map (\<lambda>c. ?sel (iter_elems c)) cs)"
      by (induction cs) auto
    also have "\<dots> = ?sel (concat (map iter_elems cs))"
      by (induction cs) (simp_all add: child_step_def)
    finally show ?thesis using False by (simp add: child_step_def)
  qed
qed

lemma document_order_when_flat:
  assumes "no_nested_info article"
  shows "child_step ''Affiliation'' (findall_descendant ''AffiliationInfo'' article) =
         document_order_affiliations article"
proof -
  have "\<And>c. c \<in> set (el_children article) \<Longrightarrow>
      affiliations_under False c =
        child_step ''Affiliation'' (filter (\<lambda>d. el_tag d = ''AffiliationInfo'') (iter_elems c))"
  proof -
    fix c assume c: "c \<in> set (el_children article)"
    have "set (iter_elems c) \<subseteq> set (iter_elems article)"
      using c by (subst (2) iter_elems_unfold) auto
    with assms have p: "\<forall>d\<in>set (iter_elems c).
          el_tag d = ''AffiliationInfo'' \<longrightarrow> findall_descendant ''AffiliationInfo'' d = []"
      unfolding no_nested_info_def by blast
    obtain t' a' x' cs' where c': "c = Element t' a' x' cs'" by (cases c)
    have "affiliations_under False c =
          concat (map (affiliations_under (el_tag c = ''AffiliationInfo'')) (el_children c))"
      by (simp add: c')
    with affiliations_in_document_order [OF p]
    show "affiliations_under False c =
        child_step ''Affiliation'' (filter (\<lambda>d. el_tag d = ''AffiliationInfo'') (iter_elems c))"
      by simp
  qed
  then have "map (affiliations_under False) (el_children article) =
      map (\<lambda>c. child_step ''Affiliation''
                 (filter (\<lambda>d. el_tag d = ''AffiliationInfo'') (iter_elems c))) (el_children article)"
    by (intro map_cong refl)
  then have "concat (map (affiliations_under False) (el_children article)) =
      concat (map (\<lambda>c. child_step ''Affiliation''
                 (filter (\<lambda>d. el_tag d = ''AffiliationInfo'') (iter_elems c))) (el_children article))"
    by (rule arg_cong [where f = concat])
  also have "\<dots> = child_step ''Affiliation''
      (filter (\<lambda>d. el_tag d = ''AffiliationInfo'') (concat (map iter_elems (el_children article))))"
    by (rule selected_concat)
  finally show ?thesis
    by (simp add: document_order_affiliations_def findall_descendant_def)
qed

text \<open>
  Claim C4, as amended. \<open>extract_corresponding_author_email\<close> returns the first email
  extracted from the affiliation texts of the authors flagged valid and corresponding,
  taken in document order; failing that, the first email extracted from the affiliation
  texts of the whole document, scanned in the order of their \<open>AffiliationInfo\<close> parents
  (each parent in document order, followed by its \<open>Affiliation\<close> children), which is
  document order when no \<open>AffiliationInfo\<close> lies inside another; failing that, nothing.
\<close>

theorem corresponding_email_chain:
  "extract_corresponding_author_email article =
     (case first_email
             (concat (map (\<lambda>a. child_step ''Affiliation'' (findall_child ''AffiliationInfo'' a))
                          (filter is_corresponding (findall_descendant ''Author'' article)))) of
        Some email \<Rightarrow> Some email
      | None \<Rightarrow>
          first_email (child_step ''Affiliation'' (findall_descendant ''AffiliationInfo'' article)))
   \<and> (\<forall>es. first_email es =
          (case List.find (\<lambda>a. affiliation_email a \<noteq> None) es of
             None \<Rightarrow> None
           | Some a \<Rightarrow> affiliation_email a))
   \<and> (no_nested_info article \<longrightarrow>
        child_step ''Affiliation'' (findall_descendant ''AffiliationInfo'' article) =
          document_order_affiliations article)"
proof (intro conjI allI impI)
  show "extract_corresponding_author_email article =
     (case first_email
             (concat (map (\<lambda>a. child_step ''Affiliation'' (findall_child ''AffiliationInfo'' a))
                          (filter is_corresponding (findall_descendant ''Author'' article)))) of
        Some email \<Rightarrow> Some email
      | None \<Rightarrow>
          first_email (child_step ''Affiliation'' (findall_descendant ''AffiliationInfo'' article)))"
    by (simp add: extract_corresponding_author_email_def corresponding_loop_flat)
next
  fix es
  show "first_email es =
          (case List.find (\<lambda>a. affiliation_email a \<noteq> None) es of
             None \<Rightarrow> None
           | Some a \<Rightarrow> affiliation_email a)"
    by (rule first_email_find)
next
  assume "no_nested_info article"
  then show "child_step ''Affiliation'' (findall_descendant ''AffiliationInfo'' article) =
          document_order_affiliations article"
    by (rule document_order_when_flat)
qed

theorem corresponding_email_chain_witness:
  "no_nested_info
     (node ''PubmedArticle'' [node ''AuthorList''
        [Element ''Author'' [(''ValidYN'', ''Y'')] None
           [leaf ''LastName'' ''Poe'',
            node ''AffiliationInfo'' [leaf ''Affiliation'' ''State University. poe@su.edu'']],
         Element ''Author'' [(''ValidYN'', ''Y''), (''CorrespondingAuthor'', ''Y'')] None
           [leaf ''LastName'' ''Doe'',
            node ''AffiliationInfo'' [leaf ''Affiliation'' ''Moderna Inc. doe@moderna.com'']]]])
   \<and> extract_corresponding_author_email
     (node ''PubmedArticle'' [node ''AuthorList''
        [Element ''Author'' [(''ValidYN'', ''Y'')] None
           [leaf ''LastName'' ''Poe'',
            node ''AffiliationInfo'' [leaf ''Affiliation'' ''State University. poe@su.edu'']],
         Element ''Author'' [(''ValidYN'', ''Y''), (''CorrespondingAuthor'', ''Y'')] None
           [leaf ''LastName'' ''Doe'',
            node ''AffiliationInfo'' [leaf ''Affiliation'' ''Moderna Inc. doe@moderna.com'']]]])
     = Some ''doe@moderna.com''
   \<and> map affiliation_email (document_order_affiliations
     (node ''PubmedArticle'' [node ''AuthorList''
        [Element ''Author'' [(''ValidYN'', ''Y'')] None
           [leaf ''LastName'' ''Poe'',
            node ''AffiliationInfo'' [leaf ''Affiliation'' ''State University. poe@su.edu'']],
         Element ''Author'' [(''ValidYN'', ''Y''), (''CorrespondingAuthor'', ''Y'')] None
           [leaf ''LastName'' ''Doe'',
            node ''AffiliationInfo'' [leaf ''Affiliation'' ''Moderna Inc. doe@moderna.com'']]]]))
     = [Some ''poe@su.edu'', Some ''doe@moderna.com'']"
proof -
  let ?doc = "node ''PubmedArticle'' [node ''AuthorList''
        [Element ''Author'' [(''ValidYN'', ''Y'')] None
           [leaf ''LastName'' ''Poe'',
            node ''AffiliationInfo'' [leaf ''Affiliation'' ''State University. poe@su.edu'']],
         Element ''Author'' [(''ValidYN'', ''Y''), (''CorrespondingAuthor'', ''Y'')] None
           [leaf ''LastName'' ''Doe'',
            node ''AffiliationInfo'' [leaf ''Affiliation'' ''Moderna Inc. doe@moderna.com'']]]]"
  have h: "no_nested_info ?doc" by code_simp
  have f: "first_email
             (concat (map (\<lambda>a. child_step ''Affiliation'' (findall_child ''AffiliationInfo'' a))
                          (filter is_corresponding (findall_descendant ''Author'' ?doc))))
           = Some ''doe@moderna.com''"
    by code_simp
  have m: "map affiliation_email
             (child_step ''Affiliation'' (findall_descendant ''AffiliationInfo'' ?doc))
           = [Some ''poe@su.edu'', Some ''doe@moderna.com'']"
    by code_simp
  from corresponding_email_chain [of ?doc] h
  have 1: "extract_corresponding_author_email ?doc =
     (case first_email
             (concat (map (\<lambda>a. child_step ''Affiliation'' (findall_child ''AffiliationInfo'' a))
                          (filter is_corresponding (findall_descendant ''Author'' ?doc)))) of
        Some email \<Rightarrow> Some email
      | None \<Rightarrow>
          first_email (child_step ''Affiliation'' (findall_descendant ''AffiliationInfo'' ?doc)))"
    and 2: "child_step ''Affiliation'' (findall_descendant ''AffiliationInfo'' ?doc) =
          document_order_affiliations ?doc"
    by blast+
  from 1 f have e: "extract_corresponding_author_email ?doc = Some ''doe@moderna.com''"
    by simp
  from m 2 have "map affiliation_email (document_order_affiliations ?doc)
           = [Some ''poe@su.edu'', Some ''doe@moderna.com'']"
    by simp
  with h e show ?thesis by blast
qed

text \<open>
  Claim C4 as stated fails where an \<open>AffiliationInfo\<close> lies inside another: no author is
  flagged, the first email of the document in document order is \<open>a@x.com\<close>, and the
  email returned is \<open>b@x.com\<close>.
\<close>

theorem nested_affiliation_order_counterexample:
  "filter is_corresponding
     (findall_descendant ''Author''
        (node ''PubmedArticle''
           [node ''AffiliationInfo''
              [node ''AffiliationInfo'' [leaf ''Affiliation'' ''a@x.com''],
               leaf ''Affiliation'' ''b@x.com'']])) = []
   \<and> extract_corresponding_author_email
        (node ''PubmedArticle''
           [node ''AffiliationInfo''
              [node ''AffiliationInfo'' [leaf ''Affiliation'' ''a@x.com''],
               leaf ''Affiliation'' ''b@x.com'']]) = Some ''b@x.com''
   \<and> first_email (document_order_affiliations
        (node ''PubmedArticle''
           [node ''AffiliationInfo''
              [node ''AffiliationInfo'' [leaf ''Affiliation'' ''a@x.com''],
               leaf ''Affiliation'' ''b@x.com'']])) = Some ''a@x.com''"
  by code_simp

section \<open>The meaning of the corporate-ending pattern\<close>

lemma search_in_None: "search_in r s is = None \<longleftrightarrow> (\<forall>i\<in>set is. ends r s i = [])"
  by (induction "is") (auto split: list.splits)

lemma re_found_iff: "re_found r s \<longleftrightarrow> (\<exists>i\<le>length s. ends r s i \<noteq> [])"
  unfolding re_found_def re_search_def search_in_None
  by (auto simp: less_Suc_eq_le simp del: upt_Suc)

lemma ends_Lit: "ends (Lit c) s i = (if i < length s \<and> s ! i = c then [Suc i] else [])"
  by (simp add: Lit_def)

lemma prefix_Cons_drop:
  "prefix (c # w) (drop i s) \<longleftrightarrow> i < length s \<and> s ! i = c \<and> prefix w (drop (Suc i) s)"
proof (cases "i < length s")
  case True
  then have "drop i s = s ! i # drop (Suc i) s" by (simp add: Cons_nth_drop_Suc)
  with True show ?thesis by auto
next
  case False
  then show ?thesis by simp
qed

lemma ends_Str:
  "set (ends (Str w) s i) = (if prefix w (drop i s) then {i + length w} else {})"
proof (induction w arbitrary: i)
  case Nil
  show ?case by (simp add: Str_def)
next
  case (Cons c w)
  have "ends (Str (c # w)) s i = concat (map (ends (Str w) s) (ends (Lit c) s i))"
    by (simp add: Str_def)
  then have "set (ends (Str (c # w)) s i) =
      (if i < length s \<and> s ! i = c then set (ends (Str w) s (Suc i)) else {})"
    by (auto simp: ends_Lit)
  also have "\<dots> = (if prefix (c # w) (drop i s) then {i + length (c # w)} else {})"
    unfolding Cons [of "Suc i"] prefix_Cons_drop by simp
  finally show ?case .
qed

lemma ends_alts: "set (ends (alts rs) s i) = (\<Union>r\<in>set rs. set (ends r s i))"
  by (induction rs) (simp_all add: alts_def)

lemma ends_Star_of:
  assumes "ends a s i = ks"
  shows "set (ends (Star a) s i) =
     insert i (\<Union>k\<in>{k \<in> set ks. i < k \<and> k \<le> length s}. set (ends (Star a) s k))"
  unfolding assms [symmetric] by (rule ends_Star)

lemma ends_Star_Cls_step:
  "set (ends (Star (Cls P)) s i) =
     insert i (if i < length s \<and> P (s ! i) then set (ends (Star (Cls P)) s (Suc i)) else {})"
proof (cases "i < length s \<and> P (s ! i)")
  case True
  then have "ends (Cls P) s i = [Suc i]" by simp
  from ends_Star_of [OF this]
  have "set (ends (Star (Cls P)) s i) =
     insert i (\<Union>k\<in>{k \<in> set [Suc i]. i < k \<and> k \<le> length s}. set (ends (Star (Cls P)) s k))" .
  moreover from True have "{k \<in> set [Suc i]. i < k \<and> k \<le> length s} = {Suc i}" by auto
  ultimately have "set (ends (Star (Cls P)) s i) = insert i (set (ends (Star (Cls P)) s (Suc i)))"
    by simp
  with True show ?thesis by simp
next
  case False
  then have "ends (Cls P) s i = []" by auto
  from ends_Star_of [OF this]
  have "set (ends (Star (Cls P)) s i) = {i}" by simp
  with False show ?thesis by auto
qed

lemma ends_Star_Cls:
  "set (ends (Star (Cls P)) s i) = {j. i \<le> j \<and> j \<le> i + length (takeWhile P (drop i s))}"
proof (induction "length s - i" arbitrary: i)
  case 0
  then have "drop i s = []" "\<not> i < length s" by simp_all
  then show ?case unfolding ends_Star_Cls_step [of P s i] by auto
next
  case (Suc n)
  then have i: "i < length s" and n: "n = length s - Suc i" by auto
  from i have d: "drop i s = s ! i # drop (Suc i) s" by (simp add: Cons_nth_drop_Suc)
  show ?case
  proof (cases "P (s ! i)")
    case True
    have "set (ends (Star (Cls P)) s i) = insert i (set (ends (Star (Cls P)) s (Suc i)))"
      unfolding ends_Star_Cls_step [of P s i] using i True by simp
    also have "\<dots> = insert i {j. Suc i \<le> j \<and> j \<le> Suc i + length (takeWhile P (drop (Suc i) s))}"
      unfolding Suc.hyps(1) [OF n] ..
    also have "\<dots> = {j. i \<le> j \<and> j \<le> i + length (takeWhile P (drop i s))}"
      unfolding d using True by auto
    finally show ?thesis .
  next
    case False
    have "set (ends (Star (Cls P)) s i) = {i}"
      unfolding ends_Star_Cls_step [of P s i] using False by simp
    also have "\<dots> = {j. i \<le> j \<and> j \<le> i + length (takeWhile P (drop i s))}"
      unfolding d using False by auto
    finally show ?thesis .
  qed
qed

lemma newline_isspace: "py_isspace (CHR 0x0A)"
  by code_simp

lemma ends_Seq: "set (ends (Seq a b) s i) = (\<Union>k\<in>set (ends a s i). set (ends b s k))"
  by simp

lemma ne_emptyI: "x \<in> A \<Longrightarrow> A \<noteq> {}"
  by blast

lemma ends_Eol:
  "set (ends (Seq Eol Eps) s j) =
     (if j = length s \<or> (Suc j = length s \<and> s ! j = CHR 0x0A) then {j} else {})"
  by simp

lemma trailing_space_ends:
  assumes "k \<le> length s"
  shows "set (ends (Seq (Star (Cls py_isspace)) (Seq Eol Eps)) s k) \<noteq> {}
         \<longleftrightarrow> (\<forall>c\<in>set (drop k s). py_isspace c)"
proof
  let ?m = "length (takeWhile py_isspace (drop k s))"
  assume "set (ends (Seq (Star (Cls py_isspace)) (Seq Eol Eps)) s k) \<noteq> {}"
  then have "(\<Union>j\<in>set (ends (Star (Cls py_isspace)) s k). set (ends (Seq Eol Eps) s j)) \<noteq> {}"
    by (simp only: ends_Seq [of "Star (Cls py_isspace)" "Seq Eol Eps"] simp_thms)
  then have "\<exists>x. x \<in> (\<Union>j\<in>set (ends (Star (Cls py_isspace)) s k). set (ends (Seq Eol Eps) s j))"
    by (simp only: ex_in_conv simp_thms)
  then obtain x j where j: "j \<in> set (ends (Star (Cls py_isspace)) s k)"
      and e: "x \<in> set (ends (Seq Eol Eps) s j)"
    by blast
  from j have jk: "k \<le> j" "j \<le> k + ?m" by (simp_all add: ends_Star_Cls)
  from e have eol: "j = length s \<or> (Suc j = length s \<and> s ! j = CHR 0x0A)"
    unfolding ends_Eol by (simp split: if_splits)
  have "\<forall>n<length (drop k s). py_isspace (drop k s ! n)"
  proof (intro allI impI)
    fix n assume n: "n < length (drop k s)"
    show "py_isspace (drop k s ! n)"
    proof (cases "n < ?m")
      case True
      then have "takeWhile py_isspace (drop k s) ! n \<in> set (takeWhile py_isspace (drop k s))"
        by (rule nth_mem)
      then have "py_isspace (takeWhile py_isspace (drop k s) ! n)" by (rule set_takeWhileD [THEN conjunct2])
      with True show ?thesis by (simp add: takeWhile_nth)
    next
      case False
      with jk n have "j \<le> k + n" "k + n < length s" by simp_all
      with eol have "k + n = j" "s ! j = CHR 0x0A" by auto
      with n assms show ?thesis by (simp add: newline_isspace)
    qed
  qed
  then show "\<forall>c\<in>set (drop k s). py_isspace c" by (simp add: all_set_conv_all_nth)
next
  assume a: "\<forall>c\<in>set (drop k s). py_isspace c"
  then have "takeWhile py_isspace (drop k s) = drop k s" by (simp add: takeWhile_eq_all_conv)
  then have "length (takeWhile py_isspace (drop k s)) = length (drop k s)" by (rule arg_cong)
  then have "length (takeWhile py_isspace (drop k s)) = length s - k" by (simp only: length_drop)
  with assms have "length s \<in> set (ends (Star (Cls py_isspace)) s k)"
    by (simp add: ends_Star_Cls)
  moreover have "length s \<in> set (ends (Seq Eol Eps) s (length s))" by simp
  ultimately have "length s \<in>
      (\<Union>j\<in>set (ends (Star (Cls py_isspace)) s k). set (ends (Seq Eol Eps) s j))"
    by blast
  then have "length s \<in> set (ends (Seq (Star (Cls py_isspace)) (Seq Eol Eps)) s k)"
    by (simp only: ends_Seq [of "Star (Cls py_isspace)" "Seq Eol Eps"] simp_thms)
  then show "set (ends (Seq (Star (Cls py_isspace)) (Seq Eol Eps)) s k) \<noteq> {}"
    by (rule ne_emptyI)
qed

lemma corporate_ending_pattern_eq:
  "corporate_ending_pattern =
     Seq (alts (map Str CORPORATE_ENDINGS)) (Seq (Star (Cls py_isspace)) (Seq Eol Eps))"
  by (simp add: corporate_ending_pattern_def seqs_def cls_space_def)

lemma prefix_drop_length: "prefix w (drop i t) \<Longrightarrow> i \<le> length t \<Longrightarrow> i + length w \<le> length t"
  by (auto dest!: prefix_length_le)

lemma ends_words:
  "set (ends (alts (map Str ws)) t i) = {i + length w |w. w \<in> set ws \<and> prefix w (drop i t)}"
  unfolding ends_alts by (auto simp: ends_Str split: if_splits)

lemma rstrip_decomp: "\<exists>ws. t = py_rstrip t @ ws \<and> (\<forall>c\<in>set ws. py_isspace c)"
proof -
  have "t = rev (takeWhile py_isspace (rev t) @ dropWhile py_isspace (rev t))" by simp
  then have "t = rev (dropWhile py_isspace (rev t)) @ rev (takeWhile py_isspace (rev t))"
    by (simp only: rev_append)
  moreover have "\<forall>c\<in>set (rev (takeWhile py_isspace (rev t))). py_isspace c"
    by (auto dest: set_takeWhileD)
  ultimately show ?thesis unfolding py_rstrip_def by blast
qed

lemma rstrip_append_space:
  assumes "\<forall>c\<in>set ws. py_isspace c" "u \<noteq> []" "\<not> py_isspace (last u)"
  shows "py_rstrip (u @ ws) = u"
proof -
  have "dropWhile py_isspace (rev ws @ rev u) = dropWhile py_isspace (rev u)"
    by (rule dropWhile_append2) (use assms(1) in auto)
  also from assms(2,3) have "\<dots> = rev u" by (cases "rev u") (auto simp: last_rev hd_rev)
  finally show ?thesis by (simp add: py_rstrip_def)
qed

lemma ends_nonempty_Seq:
  "ends (Seq a b) s i \<noteq> [] \<longleftrightarrow> (\<exists>k\<in>set (ends a s i). ends b s k \<noteq> [])"
  by simp

lemma corporate_ending_at:
  assumes "i \<le> length t"
  shows "ends corporate_ending_pattern t i \<noteq> [] \<longleftrightarrow>
         (\<exists>w\<in>set CORPORATE_ENDINGS.
            prefix w (drop i t) \<and> (\<forall>c\<in>set (drop (i + length w) t). py_isspace c))"
    (is "?L \<longleftrightarrow> ?R")
proof
  let ?tail = "Seq (Star (Cls py_isspace)) (Seq Eol Eps)"
  assume ?L
  then obtain k where k: "k \<in> set (ends (alts (map Str CORPORATE_ENDINGS)) t i)"
      and e: "ends ?tail t k \<noteq> []"
    unfolding corporate_ending_pattern_eq ends_nonempty_Seq [of "alts (map Str CORPORATE_ENDINGS)"]
    by (elim bexE)
  from k obtain w where w: "w \<in> set CORPORATE_ENDINGS" "prefix w (drop i t)" "k = i + length w"
    unfolding ends_words by blast
  from w(2) assms have "i + length w \<le> length t" by (rule prefix_drop_length)
  from trailing_space_ends [OF this] e w(3)
  have "\<forall>c\<in>set (drop (i + length w) t). py_isspace c"
    by (simp only: set_empty simp_thms)
  with w(1,2) show ?R by blast
next
  let ?tail = "Seq (Star (Cls py_isspace)) (Seq Eol Eps)"
  assume ?R
  then obtain w where w: "w \<in> set CORPORATE_ENDINGS" "prefix w (drop i t)"
      "\<forall>c\<in>set (drop (i + length w) t). py_isspace c"
    by blast
  from w(2) assms have "i + length w \<le> length t" by (rule prefix_drop_length)
  from trailing_space_ends [OF this] w(3)
  have e: "ends ?tail t (i + length w) \<noteq> []" by (simp only: set_empty simp_thms)
  from w(1,2) have "i + length w \<in> set (ends (alts (map Str CORPORATE_ENDINGS)) t i)"
    unfolding ends_words by blast
  from this e show ?L
    unfolding corporate_ending_pattern_eq ends_nonempty_Seq [of "alts (map Str CORPORATE_ENDINGS)"]
    by (rule rev_bexI)
qed

lemma corporate_words_all:
  "list_all (\<lambda>w. w \<noteq> [] \<and> \<not> py_isspace (last w)) CORPORATE_ENDINGS"
  by code_simp

lemma corporate_words_shape:
  "w \<in> set CORPORATE_ENDINGS \<Longrightarrow> w \<noteq> [] \<and> \<not> py_isspace (last w)"
  using corporate_words_all by (simp add: list_all_iff)

lemma corporate_ending_found:
  "re_found corporate_ending_pattern t \<longleftrightarrow> ends_with_corporate_word t"
proof
  assume "re_found corporate_ending_pattern t"
  then obtain i where i: "i \<le> length t" "ends corporate_ending_pattern t i \<noteq> []"
    unfolding re_found_iff by blast
  from i(2) obtain w where w: "w \<in> set CORPORATE_ENDINGS" "prefix w (drop i t)"
      "\<forall>c\<in>set (drop (i + length w) t). py_isspace c"
    unfolding corporate_ending_at [OF i(1)] by blast
  from w(2) obtain zs where zs: "drop i t = w @ zs" by (auto simp: prefix_def)
  then have "drop (length w) (drop i t) = zs" by simp
  then have zs': "zs = drop (i + length w) t" by (simp add: add.commute)
  have "t = take i t @ drop i t" by simp
  with zs have t: "t = (take i t @ w) @ zs" by simp
  from corporate_words_shape [OF w(1)] have "take i t @ w \<noteq> []" "\<not> py_isspace (last (take i t @ w))"
    by simp_all
  with w(3) zs' have "py_rstrip ((take i t @ w) @ zs) = take i t @ w"
    by (intro rstrip_append_space) simp_all
  with t have "py_rstrip t = take i t @ w" by simp
  then have "suffix w (py_rstrip t)" by (simp add: suffix_def)
  with w(1) show "ends_with_corporate_word t" unfolding ends_with_corporate_word_def by blast
next
  assume "ends_with_corporate_word t"
  then obtain w p where w: "w \<in> set CORPORATE_ENDINGS" "py_rstrip t = p @ w"
    unfolding ends_with_corporate_word_def suffix_def by blast
  from rstrip_decomp [of t] obtain ws where ws: "t = py_rstrip t @ ws" "\<forall>c\<in>set ws. py_isspace c"
    by blast
  from ws(1) w(2) have t: "t = p @ w @ ws" by simp
  then have l: "length p \<le> length t" by simp
  from t have d: "drop (length p) t = w @ ws" by simp
  then have "prefix w (drop (length p) t)" by simp
  moreover from t have "drop (length p + length w) t = ws"
    by (metis append_assoc append_eq_conv_conj length_append)
  with ws(2) have "\<forall>c\<in>set (drop (length p + length w) t). py_isspace c" by simp
  ultimately have "ends corporate_ending_pattern t (length p) \<noteq> []"
    unfolding corporate_ending_at [OF l] using w(1) by blast
  with l show "re_found corporate_ending_pattern t" unfolding re_found_iff by blast
qed

section \<open>The tie-break rule\<close>

text \<open>
  Claim C1, as amended. For an affiliation string whose lower-casing contains both a
  company keyword and an academic keyword, \<open>is_company_affiliation\<close> returns true if and
  only if the text matches the named-entity-plus-legal-suffix pattern at its start, or the
  lower-cased text ends with one of the words company, corporation, inc, corp, llc, ltd
  followed by whitespace only. The second pattern is run on the lower-cased text, so it
  ignores the letter case of the original.
\<close>

theorem ambiguous_affiliation_rule:
  assumes "\<exists>k\<in>set COMPANY_KEYWORDS. sublist k (py_lower s)"
      and "\<exists>k\<in>set ACADEMIC_KEYWORDS. sublist k (py_lower s)"
  shows "is_company_affiliation (Some s) \<longleftrightarrow>
           re_found company_like_name_pattern s
           \<or> ends_with_corporate_word (py_lower s)"
proof -
  from assms(1) have "s \<noteq> []" using keyword_present_nonempty by blast
  moreover have "company_loop COMPANY_KEYWORDS s (py_lower s) =
      Some (re_found company_like_name_pattern s \<or> re_found corporate_ending_pattern (py_lower s))"
    using company_loop_some [OF assms(1)] academic_loop_some [OF assms(2)] by simp
  ultimately show ?thesis
    by (simp add: is_company_affiliation_def corporate_ending_found)
qed

theorem ambiguous_affiliation_rule_witness:
  "(\<exists>k\<in>set COMPANY_KEYWORDS. sublist k (py_lower ''Pfizer, Inc. Department of Oncology''))
   \<and> (\<exists>k\<in>set ACADEMIC_KEYWORDS. sublist k (py_lower ''Pfizer, Inc. Department of Oncology''))
   \<and> re_found company_like_name_pattern ''Pfizer, Inc. Department of Oncology''
   \<and> is_company_affiliation (Some ''Pfizer, Inc. Department of Oncology'')"
proof -
  have c: "\<exists>k\<in>set COMPANY_KEYWORDS. sublist k (py_lower ''Pfizer, Inc. Department of Oncology'')"
    by code_simp
  have a: "\<exists>k\<in>set ACADEMIC_KEYWORDS. sublist k (py_lower ''Pfizer, Inc. Department of Oncology'')"
    by code_simp
  have p: "re_found company_like_name_pattern ''Pfizer, Inc. Department of Oncology''"
    by code_simp
  from ambiguous_affiliation_rule [OF c a] c a p show ?thesis by blast
qed

text \<open>
  Claim C1 as stated fails: \<open>National Health INC\<close> contains the company keyword
  \<open>health\<close> and the academic keyword \<open>national\<close>, does not match the
  named-entity-plus-legal-suffix pattern and does not end with one of the lower-case words
  company, corporation, inc, corp, llc, ltd, and is classified as a company all the same.
\<close>

theorem corporate_ending_original_case_counterexample:
  "''health'' \<in> set COMPANY_KEYWORDS \<and> sublist ''health'' (py_lower ''National Health INC'')
   \<and> ''national'' \<in> set ACADEMIC_KEYWORDS \<and> sublist ''national'' (py_lower ''National Health INC'')
   \<and> is_company_affiliation (Some ''National Health INC'')
   \<and> \<not> re_found company_like_name_pattern ''National Health INC''
   \<and> \<not> ends_with_corporate_word ''National Health INC''
   \<and> ends_with_corporate_word (py_lower ''National Health INC'')"
  by code_simp

end
